(* ===== verification/AVL_Prelude.thy ===== *)
theory AVL_Prelude
  imports Main "HOL-Library.Multiset" "HOL-Library.Word"
begin

text \<open>
  Shared vocabulary of the AVL tree development: the named collections of rewrite
  rules the component theories fill, and generic facts on sorted lists, sums and
  counts that the proofs about the tree (\<open>src/onefile.cpp\<close>) use over and over, and
  the reading of a 64-bit \<open>std::size_t\<close> through the 32-bit \<open>int\<close> cast the code applies
  to it. Nothing here is specific to the tree.
\<close>

named_theorems node_simps "evaluation rules for the node-level operations"
named_theorems aggr_simps "facts reading the cached node aggregates as list quantities"

subsection \<open>Sorted lists\<close>

lemma sorted_mid_le:
  "sorted (xs @ v # ys) \<Longrightarrow> (\<forall>x\<in>set xs. x \<le> v) \<and> (\<forall>y\<in>set ys. v \<le> y)"
  by (simp add: sorted_append)

lemma sorted_mid_iff:
  "sorted (xs @ v # ys) \<longleftrightarrow>
     sorted xs \<and> sorted ys \<and> (\<forall>x\<in>set xs. x \<le> v) \<and> (\<forall>y\<in>set ys. v \<le> y)"
  by (auto simp: sorted_append intro: order_trans)

lemma sorted_mset_unique: "sorted xs \<Longrightarrow> sorted ys \<Longrightarrow> mset xs = mset ys \<Longrightarrow> xs = ys"
  by (metis properties_for_sort sorted_sort_id)

lemma sorted_last_is_Max: "sorted xs \<Longrightarrow> xs \<noteq> [] \<Longrightarrow> last xs = Max (set xs)"
proof -
  assume s: "sorted xs" and ne: "xs \<noteq> []"
  then have "xs = butlast xs @ [last xs]" by simp
  then have "\<forall>y\<in>set xs. y \<le> last xs"
    using s by (metis sorted_append set_append Un_iff empty_iff empty_set insert_iff list.set(2) order_refl)
  then show ?thesis using ne by (intro Max_eqI [symmetric]) auto
qed

lemma sorted_hd_is_Min: "sorted xs \<Longrightarrow> xs \<noteq> [] \<Longrightarrow> hd xs = Min (set xs)"
  by (cases xs) (auto intro!: Min_eqI [symmetric])

subsection \<open>Filtering a sorted list at a bound\<close>

text \<open>In a sorted list split at \<open>v\<close>, a bound on the right of \<open>v\<close> keeps the whole left
  part, a bound on its left drops the whole right part.\<close>

lemma filter_le_none:
  "sorted (xs @ v # ys) \<Longrightarrow> x < v \<Longrightarrow> filter (\<lambda>y. y \<le> x) ys = []"
  by (auto simp: sorted_append filter_empty_conv)

lemma filter_le_all:
  "sorted (xs @ v # ys) \<Longrightarrow> v \<le> x \<Longrightarrow> filter (\<lambda>y. y \<le> x) xs = xs"
  by (auto simp: sorted_append filter_id_conv intro: order_trans)

lemma filter_less_none:
  "sorted (xs @ v # ys) \<Longrightarrow> x \<le> v \<Longrightarrow> filter (\<lambda>y. y < x) ys = []"
  by (auto simp: sorted_append filter_empty_conv)

lemma filter_less_all:
  "sorted (xs @ v # ys) \<Longrightarrow> v < x \<Longrightarrow> filter (\<lambda>y. y < x) xs = xs"
  by (auto simp: sorted_append filter_id_conv)

subsection \<open>Splitting a sorted list at a bound\<close>

lemma sorted_takeWhile_less:
  "sorted xs \<Longrightarrow> takeWhile (\<lambda>y. y < v) xs = filter (\<lambda>y. y < v) xs"
proof (induction xs)
  case (Cons a xs)
  have "a < v" if "x \<in> set xs" "x < v" for x
    using Cons.prems that by (auto intro: order.strict_trans1)
  then show ?case using Cons by (auto simp: empty_filter_conv)
qed simp

lemma sorted_dropWhile_less:
  "sorted xs \<Longrightarrow> dropWhile (\<lambda>y. y < v) xs = filter (\<lambda>y. v \<le> y) xs"
proof (induction xs)
  case (Cons a xs)
  have "v \<le> x" if "x \<in> set xs" "\<not> a < v" for x
    using Cons.prems that by (auto intro: order.trans)
  then show ?case using Cons by (auto simp: filter_id_conv[THEN iffD2, symmetric])
qed simp

subsection \<open>An interval of a sorted list\<close>

text \<open>The elements of a sorted list in \<open>[l, r]\<close> are the slice between the number of
  elements below \<open>l\<close> and the number of elements up to \<open>r\<close>.\<close>

lemma sorted_filter_interval:
  "sorted xs \<Longrightarrow> l \<le> r \<Longrightarrow>
   filter (\<lambda>y. l \<le> y \<and> y \<le> r) xs =
   drop (length (filter (\<lambda>y. y < l) xs)) (take (length (filter (\<lambda>y. y \<le> r) xs)) xs)"
  for l r :: "'a::linorder"
proof (induction xs)
  case (Cons x xs)
  then have ge: "\<forall>y\<in>set xs. x \<le> y" and IH: "filter (\<lambda>y. l \<le> y \<and> y \<le> r) xs =
   drop (length (filter (\<lambda>y. y < l) xs)) (take (length (filter (\<lambda>y. y \<le> r) xs)) xs)" by simp_all
  consider (lt) "x < l" | (mid) "l \<le> x" "x \<le> r" | (gt) "r < x" by fastforce
  then show ?case
  proof cases
    case lt then show ?thesis using IH Cons.prems by simp
  next
    case mid
    then have "filter (\<lambda>y. y < l) xs = []" using ge by (auto simp: filter_empty_conv)
    then show ?thesis using IH mid by simp
  next
    case gt
    then have "filter (\<lambda>y. y \<le> r) xs = []" "filter (\<lambda>y. l \<le> y \<and> y \<le> r) xs = []"
      using ge by (auto simp: filter_empty_conv)
    then show ?thesis using gt Cons.prems by auto
  qed
qed simp

lemma map_nth_upt_slice: "n \<le> length xs \<Longrightarrow> map ((!) xs) [m..<n] = drop m (take n xs)"
  by (rule nth_equalityI) simp_all

subsection \<open>Machine integers\<close>

text \<open>\<open>std::size_t\<close> is 64 bits wide and \<open>int\<close> 32 bits. \<open>int(idx)\<close> keeps the low 32 bits
  of \<open>idx\<close> and reads them in two's complement.\<close>

type_synonym size_t = "64 word"

lemma unat_less_pow_iff: "unat (i :: 'a::len word) < 2 ^ n \<longleftrightarrow> uint i < 2 ^ n"
  by transfer (simp add: nat_less_iff)

lemma unat_ge_pow_iff: "2 ^ n \<le> unat (i :: 'a::len word) \<longleftrightarrow> 2 ^ n \<le> uint i"
  by transfer (simp add: le_nat_iff)

lemma uint_less_int_iff: "uint (i :: 'a::len word) < int n \<longleftrightarrow> unat i < n"
  by transfer (simp add: nat_less_iff)

lemma unat_word_of_int_small:
  "0 \<le> k \<Longrightarrow> k < 2 ^ 31 \<Longrightarrow> unat (word_of_int k :: size_t) = nat k"
  by (simp add: unsigned_of_int take_bit_int_eq_self)

lemma unat_of_nat_small: "i < 2 ^ 31 \<Longrightarrow> unat (of_nat i :: size_t) = i"
  by (simp add: unsigned_of_nat take_bit_nat_eq_self)

lemma sint_ucast_small:
  fixes i :: size_t
  shows "unat i < 2 ^ 31 \<Longrightarrow> sint (ucast i :: 32 word) = int (unat i)"
proof -
  assume "unat i < 2 ^ 31"
  moreover have "- (2 ^ 31) \<le> uint i" by (rule order.trans [OF _ uint_nonnegative]) simp
  ultimately show ?thesis
    unfolding signed_ucast_eq unat_less_pow_iff by (simp add: signed_take_bit_int_eq_self)
qed

lemma sint_ucast_wrap:
  fixes i :: size_t
  shows "sint (ucast (i + 2 ^ 32) :: 32 word) = sint (ucast i :: 32 word)"
proof -
  have "uint (i + 2 ^ 32) mod 2 ^ 32 = uint i mod 2 ^ 32"
    by (simp add: uint_word_ariths mod_mod_cancel)
  then have "(ucast (i + 2 ^ 32) :: 32 word) = ucast i"
    unfolding word_uint_eq_iff unsigned_ucast_eq take_bit_eq_mod by simp
  then show ?thesis by simp
qed

lemma sint_ucast_neg:
  fixes i :: size_t
  assumes "2 ^ 31 \<le> unat i" "unat i < 2 ^ 32"
  shows "sint (ucast i :: 32 word) < 0"
proof -
  have b: "2 ^ 31 \<le> uint i" "uint i < 2 ^ 32"
    using assms unfolding unat_less_pow_iff unat_ge_pow_iff by simp_all
  have "uint i div 2 ^ 31 = 1"
    by (rule int_div_pos_eq [where r = "uint i - 2 ^ 31"]) (use b in simp_all)
  then have "bit (uint i) 31" by (simp add: bit_iff_odd)
  then show ?thesis unfolding signed_ucast_eq by (simp add: signed_take_bit_eq_if_negative)
qed

end
