(* ===== verification/AVL_Node.thy ===== *)
theory AVL_Node
  imports AVL_Prelude
begin

text \<open>
  The node component, \<open>struct AVLTreeNode\<close> of \<open>src/onefile.cpp\<close> (lines 11--76, the same
  declaration as \<open>src/AVLTreeNode.hpp\<close>). A node owns its two children; a null child pointer
  is the constructor \<open>Null\<close>. The three cached aggregates \<open>count\<close>, \<open>height\<close> (C++ \<open>int\<close>)
  and \<open>sum\<close> (of the value type \<open>T\<close>) are fields of the node, so that the model can say when
  they are stale. The operations are the constructor, \<open>updateValues\<close>, \<open>balanceFactor\<close>,
  \<open>left_rotate\<close> and \<open>right_rotate\<close>; the pointer surgery of a rotation is a function that
  takes the subtree and returns the new one, in the order the code recomputes the two nodes.

  Beside the code: the contents \<open>inorder\<close>, the real \<open>height\<close>, the invariant
  \<open>aggr_inv\<close> (every cached field equals the recomputed one), the balance predicate \<open>avl\<close>,
  the measure \<open>imbalance\<close> (the largest height difference at a node) and the specification's
  per-node order \<open>spec_order\<close>, with the lemmas that the node operations keep them.
\<close>

datatype 'a node =
    Null
  | Node (left: "'a node") (node_value: 'a) (node_count: int) (node_height: int) (node_sum: 'a)
      (right: "'a node")
where
  "left Null = Null"
| "right Null = Null"

subsection \<open>Reading a child slot\<close>

text \<open>The code's \<open>(p != nullptr ? p->count : 0)\<close> and its kin.\<close>

fun cnt :: "'a node \<Rightarrow> int" where
  "cnt Null = 0"
| "cnt (Node _ _ c _ _ _) = c"

fun ht :: "'a node \<Rightarrow> int" where
  "ht Null = 0"
| "ht (Node _ _ _ h _ _) = h"

fun sm :: "'a::zero node \<Rightarrow> 'a" where
  "sm Null = 0"
| "sm (Node _ _ _ _ s _) = s"

subsection \<open>Node operations\<close>

text \<open>\<open>AVLTreeNode(T value)\<close>: count and height 1, but \<open>sum = T()\<close>, not \<open>value\<close>.\<close>

definition new_node :: "'a::zero \<Rightarrow> 'a node" where
  "new_node x = Node Null x 1 1 0 Null"

fun updateValues :: "'a::{plus,zero} node \<Rightarrow> 'a node" where
  "updateValues Null = Null"
| "updateValues (Node l v c h s r) =
     Node l v (cnt l + cnt r + 1) (max (ht l) (ht r) + 1) (sm l + sm r + v) r"

fun balanceFactor :: "'a node \<Rightarrow> int" where
  "balanceFactor Null = 0"
| "balanceFactor (Node l _ _ _ _ r) = ht l - ht r"

text \<open>
  \<open>left_rotate\<close>: \<open>R = right; right = R->left; R->left = this;\<close> then \<open>this\<close> is recomputed
  before \<open>R\<close>. A node without a right child would dereference null; that case is never
  reached from \<open>balance\<close> (lemma \<open>balance_step_rotations_defined\<close>) and is the identity here.
\<close>

fun left_rotate :: "'a::{plus,zero} node \<Rightarrow> 'a node" where
  "left_rotate (Node a x c h s (Node b y c' h' s' d)) =
     updateValues (Node (updateValues (Node a x c h s b)) y c' h' s' d)"
| "left_rotate t = t"

fun right_rotate :: "'a::{plus,zero} node \<Rightarrow> 'a node" where
  "right_rotate (Node (Node a x c' h' s' b) y c h s d) =
     updateValues (Node a x c' h' s' (updateValues (Node b y c h s d)))"
| "right_rotate t = t"

text \<open>Assignments to the child fields of a node (\<open>n->left = l\<close>, \<open>n->right = r\<close>).\<close>

fun set_left :: "'a node \<Rightarrow> 'a node \<Rightarrow> 'a node" where
  "set_left (Node _ v c h s r) l = Node l v c h s r"
| "set_left Null _ = Null"

fun set_right :: "'a node \<Rightarrow> 'a node \<Rightarrow> 'a node" where
  "set_right (Node l v c h s _) r = Node l v c h s r"
| "set_right Null _ = Null"

subsection \<open>Abstraction and invariants\<close>

fun inorder :: "'a node \<Rightarrow> 'a list" where
  "inorder Null = []"
| "inorder (Node l v _ _ _ r) = inorder l @ v # inorder r"

fun height :: "'a node \<Rightarrow> nat" where
  "height Null = 0"
| "height (Node l _ _ _ _ r) = max (height l) (height r) + 1"

text \<open>Every cached aggregate is the one \<open>updateValues\<close> would compute.\<close>

fun aggr_inv :: "'a::{plus,zero} node \<Rightarrow> bool" where
  "aggr_inv Null = True"
| "aggr_inv (Node l v c h s r) \<longleftrightarrow>
     aggr_inv l \<and> aggr_inv r \<and> c = cnt l + cnt r + 1 \<and> h = max (ht l) (ht r) + 1 \<and>
     s = sm l + sm r + v"

fun avl :: "'a node \<Rightarrow> bool" where
  "avl Null = True"
| "avl (Node l _ _ _ _ r) \<longleftrightarrow>
     height l \<le> height r + 1 \<and> height r \<le> height l + 1 \<and> avl l \<and> avl r"

definition bst :: "'a::linorder node \<Rightarrow> bool" where
  "bst t \<longleftrightarrow> sorted (inorder t)"

text \<open>The largest height difference of the two subtrees of a node, over all nodes: the AVL
  balance holds exactly when it is at most 1.\<close>

fun imbalance :: "'a node \<Rightarrow> nat" where
  "imbalance Null = 0"
| "imbalance (Node l _ _ _ _ r) =
     max (max (height l - height r) (height r - height l)) (max (imbalance l) (imbalance r))"

text \<open>The per-node order the specification states: values of the left subtree strictly
  below the node's value, values of the right subtree at or above it.\<close>

fun spec_order :: "'a::linorder node \<Rightarrow> bool" where
  "spec_order Null = True"
| "spec_order (Node l v _ _ _ r) \<longleftrightarrow>
     (\<forall>x\<in>set (inorder l). x < v) \<and> (\<forall>x\<in>set (inorder r). v \<le> x) \<and> spec_order l \<and> spec_order r"

subsection \<open>The cached aggregates read as list quantities\<close>

lemma cnt_aggr [aggr_simps]: "aggr_inv t \<Longrightarrow> cnt t = int (length (inorder t))"
  by (induction t) auto

lemma ht_aggr [aggr_simps]: "aggr_inv t \<Longrightarrow> ht t = int (height t)"
  by (induction t) auto

lemma sm_aggr [aggr_simps]:
  "aggr_inv (t :: 'a::comm_monoid_add node) \<Longrightarrow> sm t = sum_list (inorder t)"
  by (induction t) (auto simp: ac_simps)

lemma ht_nonneg: "aggr_inv t \<Longrightarrow> 0 \<le> ht t"
  by (simp add: ht_aggr)

lemma inorder_Nil_iff [simp]: "inorder t = [] \<longleftrightarrow> t = Null"
  by (cases t) auto

lemma height_zero_iff [simp]: "height t = 0 \<longleftrightarrow> t = Null"
  by (cases t) auto

subsection \<open>What the node operations keep\<close>

lemma inorder_updateValues [node_simps, simp]: "inorder (updateValues t) = inorder t"
  by (cases t) auto

lemma height_updateValues [node_simps, simp]: "height (updateValues t) = height t"
  by (cases t) auto

lemma avl_updateValues [node_simps, simp]: "avl (updateValues t) = avl t"
  by (cases t) auto

lemma aggr_inv_updateValues [node_simps, simp]:
  "aggr_inv (updateValues (Node l v c h s r)) \<longleftrightarrow> aggr_inv l \<and> aggr_inv r"
  by simp

lemma updateValues_aggr_id:
  "aggr_inv t \<Longrightarrow> updateValues t = t"
  by (cases t) auto

lemma inorder_left_rotate [node_simps, simp]: "inorder (left_rotate t) = inorder t"
  by (induction t rule: left_rotate.induct) auto

lemma inorder_right_rotate [node_simps, simp]: "inorder (right_rotate t) = inorder t"
  by (induction t rule: right_rotate.induct) auto

lemma left_rotate_Null_iff [simp]: "left_rotate t = Null \<longleftrightarrow> t = Null"
  by (induction t rule: left_rotate.induct) auto

lemma right_rotate_Null_iff [simp]: "right_rotate t = Null \<longleftrightarrow> t = Null"
  by (induction t rule: right_rotate.induct) auto

lemma aggr_inv_left_rotate:
  "aggr_inv l \<Longrightarrow> aggr_inv r \<Longrightarrow> r \<noteq> Null \<Longrightarrow> aggr_inv (left_rotate (Node l v c h s r))"
  by (cases r) auto

lemma aggr_inv_right_rotate:
  "aggr_inv l \<Longrightarrow> aggr_inv r \<Longrightarrow> l \<noteq> Null \<Longrightarrow> aggr_inv (right_rotate (Node l v c h s r))"
  by (cases l) auto

lemma inorder_set_left [simp]: "t \<noteq> Null \<Longrightarrow> inorder (set_left t l) = inorder l @ node_value t # inorder (right t)"
  by (cases t) auto

lemma inorder_set_right [simp]: "t \<noteq> Null \<Longrightarrow> inorder (set_right t r) = inorder (left t) @ node_value t # inorder r"
  by (cases t) auto

lemma set_left_Null_iff [simp]: "set_left t l = Null \<longleftrightarrow> t = Null"
  by (cases t) auto

lemma set_right_Null_iff [simp]: "set_right t r = Null \<longleftrightarrow> t = Null"
  by (cases t) auto

lemma right_set_right [simp]: "t \<noteq> Null \<Longrightarrow> right (set_right t r) = r"
  by (cases t) auto

lemma left_set_left [simp]: "t \<noteq> Null \<Longrightarrow> left (set_left t l) = l"
  by (cases t) auto

lemma left_set_right [simp]: "left (set_right t r) = left t"
  by (cases t) auto

lemma right_set_left [simp]: "right (set_left t l) = right t"
  by (cases t) auto

lemma set_right_set_right [simp]: "set_right (set_right t a) b = set_right t b"
  by (cases t) auto

lemma set_left_set_left [simp]: "set_left (set_left t a) b = set_left t b"
  by (cases t) auto

lemma node_value_set_left [simp]: "t \<noteq> Null \<Longrightarrow> node_value (set_left t l) = node_value t"
  by (cases t) auto

lemma node_value_set_right [simp]: "t \<noteq> Null \<Longrightarrow> node_value (set_right t r) = node_value t"
  by (cases t) auto

end
