(* ===== verification/AVL_Balance.thy ===== *)
theory AVL_Balance
  imports AVL_Node
begin

text \<open>
  \<open>AVLTree<T>::balance\<close> (\<open>src/onefile.cpp\<close> lines 236--259) and the owning slots it works
  on. The C++ records a mutation's path as a vector of \<open>AVLTreeNode**\<close>: the addresses of
  the root pointer and of the child fields of the nodes on the way down. A slot is named
  here by its position, the list of directions from the root slot: \<open>[]\<close> is \<open>&root\<close> and
  \<open>p @ [ToLeft]\<close> is \<open>&(n->left)\<close> for the node \<open>n\<close> in slot \<open>p\<close>. Rotations below a slot
  only rewrite what that slot holds, never a field of a node above it, so the positions of
  the shallower slots of a path stay valid while \<open>balance\<close> walks it from the leaf up,
  exactly as the pointers do.

  \<open>get_slot\<close> reads a slot (\<open>*indirect\<close>), \<open>update_slot\<close> rewrites it in place
  (\<open>*indirect = f(*indirect)\<close>), \<open>balance_step\<close> is one iteration of the loop of
  \<open>balance\<close> and \<open>balance\<close> the whole loop over the reversed path.
\<close>

datatype dir = ToLeft | ToRight

type_synonym slot = "dir list"

fun get_slot :: "slot \<Rightarrow> 'a node \<Rightarrow> 'a node" where
  "get_slot [] t = t"
| "get_slot (ToLeft # p) (Node l _ _ _ _ _) = get_slot p l"
| "get_slot (ToRight # p) (Node _ _ _ _ _ r) = get_slot p r"
| "get_slot (_ # _) Null = Null"

fun update_slot :: "slot \<Rightarrow> ('a node \<Rightarrow> 'a node) \<Rightarrow> 'a node \<Rightarrow> 'a node" where
  "update_slot [] f t = f t"
| "update_slot (ToLeft # p) f (Node l v c h s r) = Node (update_slot p f l) v c h s r"
| "update_slot (ToRight # p) f (Node l v c h s r) = Node l v c h s (update_slot p f r)"
| "update_slot (_ # _) f Null = Null"

text \<open>The body of the \<open>for\<close> loop of \<open>balance\<close>, on the node a slot holds.\<close>

definition balance_step :: "'a::{plus,zero} node \<Rightarrow> 'a node" where
  "balance_step p =
     (let n = updateValues p in
      if balanceFactor n \<ge> 2 \<and> balanceFactor (left n) \<ge> 1 then right_rotate n
      else if balanceFactor n \<ge> 2 then right_rotate (set_left n (left_rotate (left n)))
      else if balanceFactor n \<le> -2 \<and> balanceFactor (right n) \<le> -1 then left_rotate n
      else if balanceFactor n \<le> -2 then left_rotate (set_right n (right_rotate (right n)))
      else n)"

text \<open>\<open>std::reverse(path)\<close>, then \<open>balance_step\<close> on every slot, deepest first.\<close>

definition balance :: "slot list \<Rightarrow> 'a::{plus,zero} node \<Rightarrow> 'a node" where
  "balance path t = foldl (\<lambda>t p. update_slot p balance_step t) t (rev path)"

subsection \<open>Slots\<close>

lemma update_slot_update_slot: "update_slot p f (update_slot p g t) = update_slot p (f \<circ> g) t"
  by (induction p g t rule: update_slot.induct) auto

lemma update_slot_get_slot: "update_slot p f t = update_slot p (\<lambda>_. f (get_slot p t)) t"
  by (induction p f t rule: update_slot.induct) auto

lemma update_slot_snoc_Left: "update_slot (p @ [ToLeft]) f t = update_slot p (\<lambda>n. set_left n (f (left n))) t"
proof (induction p arbitrary: t)
  case Nil then show ?case by (cases t) auto
next
  case (Cons d p) then show ?case by (cases d; cases t) auto
qed

lemma update_slot_snoc_Right: "update_slot (p @ [ToRight]) f t = update_slot p (\<lambda>n. set_right n (f (right n))) t"
proof (induction p arbitrary: t)
  case Nil then show ?case by (cases t) auto
next
  case (Cons d p) then show ?case by (cases d; cases t) auto
qed

lemma get_slot_snoc_Left: "get_slot (p @ [ToLeft]) t = left (get_slot p t)"
proof (induction p arbitrary: t)
  case Nil then show ?case by (cases t) auto
next
  case (Cons d p) then show ?case by (cases d; cases t) auto
qed

lemma get_slot_snoc_Right: "get_slot (p @ [ToRight]) t = right (get_slot p t)"
proof (induction p arbitrary: t)
  case Nil then show ?case by (cases t) auto
next
  case (Cons d p) then show ?case by (cases d; cases t) auto
qed

lemma balance_Nil [simp]: "balance [] t = t"
  by (simp add: balance_def)

lemma balance_append: "balance (ps @ qs) t = balance ps (balance qs t)"
  by (simp add: balance_def)

lemma balance_snoc: "balance (ps @ [p]) t = balance ps (update_slot p balance_step t)"
  by (simp add: balance_def)

lemma update_slot_id [simp]: "update_slot p (\<lambda>n. n) t = t"
  by (induction p "\<lambda>n::'a node. n" t rule: update_slot.induct) auto

lemma update_slot_append: "update_slot (a @ q) f t = update_slot a (update_slot q f) t"
proof (induction a arbitrary: t)
  case Nil then show ?case by simp
next
  case (Cons d a) then show ?case by (cases d; cases t) auto
qed

lemma get_slot_Null [simp]: "get_slot q Null = Null"
  by (cases q) auto

lemma get_slot_append: "get_slot (a @ q) t = get_slot q (get_slot a t)"
proof (induction a arbitrary: t)
  case Nil then show ?case by simp
next
  case (Cons d a) then show ?case by (cases d; cases t) auto
qed

lemma balance_shift: "balance (map ((@) a) qs) t = update_slot a (balance qs) t"
proof -
  let ?F = "\<lambda>t p. update_slot p balance_step t"
  have gen: "foldl ?F t (map ((@) a) xs) = update_slot a (\<lambda>n. foldl ?F n xs) t" for xs t
  proof (induction xs arbitrary: t)
    case Nil then show ?case by simp
  next
    case (Cons q xs)
    then show ?case by (simp add: update_slot_append update_slot_update_slot comp_def)
  qed
  have "balance (map ((@) a) qs) t = foldl ?F t (map ((@) a) (rev qs))"
    by (simp add: balance_def rev_map)
  also have "\<dots> = update_slot a (\<lambda>n. foldl ?F n (rev qs)) t" by (rule gen)
  also have "(\<lambda>n. foldl ?F n (rev qs)) = balance qs" by (simp add: fun_eq_iff balance_def)
  finally show ?thesis .
qed

lemma get_slot_update_slot:
  "get_slot p t \<noteq> Null \<Longrightarrow> get_slot p (update_slot p f t) = f (get_slot p t)"
  by (induction p f t rule: update_slot.induct) auto

subsection \<open>One step of the rebalancing loop\<close>

lemma inorder_balance_step [node_simps, simp]: "inorder (balance_step t) = inorder t"
  by (cases t) (auto simp: balance_step_def Let_def)

lemma aggr_inv_balance_step:
  assumes "aggr_inv l" "aggr_inv r"
  shows "aggr_inv (balance_step (Node l v c h s r))"
proof -
  have hl: "0 \<le> ht l" and hr: "0 \<le> ht r" using assms by (simp_all add: ht_nonneg)
  have l: "l \<noteq> Null" if "ht l - ht r \<ge> 2" using that hr by (cases l) auto
  have r: "r \<noteq> Null" if "ht l - ht r \<le> -2" using that hl by (cases r) auto
  have lr: "right l \<noteq> Null" if "ht l - ht r \<ge> 2" "balanceFactor l \<le> 0"
    using that assms hr by (cases l; cases "right l") auto
  have rl: "left r \<noteq> Null" if "ht l - ht r \<le> -2" "balanceFactor r \<ge> 0"
    using that assms hl by (cases r; cases "left r") auto
  show ?thesis
    using assms l r lr rl
    apply (simp add: balance_step_def Let_def)
    apply (cases l; cases r)
    apply (auto intro!: aggr_inv_left_rotate aggr_inv_right_rotate split: node.splits)
    done
qed

text \<open>A node whose subtrees differ in height by at most one is only recomputed.\<close>

lemma balance_step_no_rotation:
  "aggr_inv l \<Longrightarrow> aggr_inv r \<Longrightarrow> height l \<le> height r + 1 \<Longrightarrow> height r \<le> height l + 1 \<Longrightarrow>
   balance_step (Node l v c h s r) = updateValues (Node l v c h s r)"
  by (simp add: balance_step_def aggr_simps)

text \<open>
  A left subtree two higher than the right one whose own subtrees differ in height is
  repaired by the single (left-left) or the double (left-right) rotation, and the result is
  balanced with the height the node had before the subtree grew.
\<close>

lemma balance_step_left_heavy:
  assumes "aggr_inv l" "aggr_inv r" "avl l" "avl r" "height l = height r + 2"
    "height (left l) \<noteq> height (right l)"
  shows "avl (balance_step (Node l v c h s r)) \<and> height (balance_step (Node l v c h s r)) = height r + 2"
proof (cases l)
  case Null then show ?thesis using assms by simp
next
  case (Node a x c1 h1 s1 b)
  show ?thesis
  proof (cases "height b < height a")
    case True
    then show ?thesis using assms Node by (auto simp: balance_step_def aggr_simps max_def)
  next
    case False
    then obtain b1 y c2 h2 s2 b2 where b: "b = Node b1 y c2 h2 s2 b2"
      using assms Node by (cases b) auto
    show ?thesis using assms Node False b by (auto simp: balance_step_def aggr_simps max_def)
  qed
qed

lemma balance_step_right_heavy:
  assumes "aggr_inv l" "aggr_inv r" "avl l" "avl r" "height r = height l + 2"
    "height (left r) \<noteq> height (right r)"
  shows "avl (balance_step (Node l v c h s r)) \<and> height (balance_step (Node l v c h s r)) = height l + 2"
proof (cases r)
  case Null then show ?thesis using assms by simp
next
  case (Node a x c1 h1 s1 b)
  show ?thesis
  proof (cases "height a < height b")
    case True
    then show ?thesis using assms Node by (auto simp: balance_step_def aggr_simps max_def)
  next
    case False
    then obtain a1 y c2 h2 s2 a2 where a: "a = Node a1 y c2 h2 s2 a2"
      using assms Node by (cases a) auto
    have "aggr_inv a1" "aggr_inv a2" "aggr_inv b" using assms Node a by auto
    then have hs: "ht a1 = int (height a1)" "ht a2 = int (height a2)" "ht b = int (height b)"
      "ht l = int (height l)"
      using assms by (simp_all add: aggr_simps)
    show ?thesis using assms Node False a hs
      by (auto simp: balance_step_def max_def split: if_splits)
  qed
qed

subsection \<open>What one step of \<open>balance\<close> repairs\<close>

text \<open>
  C18. One iteration of the loop of \<open>balance\<close> repairs the shapes an insertion leaves: for
  a node whose subtrees are balanced, carry correct aggregates and differ in height by at
  most two, where a subtree two higher than its sibling leans to one side, the step returns
  a balanced node with correct aggregates and the same in-order sequence; its height is the
  higher subtree's height when a rotation was done, one more otherwise.
\<close>

theorem balance_step_repairs:
  assumes "aggr_inv l" "aggr_inv r" "avl l" "avl r"
    and "height l \<le> height r + 2" "height r \<le> height l + 2"
    and "height l = height r + 2 \<Longrightarrow> height (left l) \<noteq> height (right l)"
    and "height r = height l + 2 \<Longrightarrow> height (left r) \<noteq> height (right r)"
  shows "aggr_inv (balance_step (Node l v c h s r)) \<and> avl (balance_step (Node l v c h s r)) \<and>
         inorder (balance_step (Node l v c h s r)) = inorder l @ v # inorder r \<and>
         height (balance_step (Node l v c h s r)) =
           (if height l = height r + 2 \<or> height r = height l + 2 then max (height l) (height r)
            else max (height l) (height r) + 1)"
proof -
  have a: "aggr_inv (balance_step (Node l v c h s r))"
    using assms(1,2) by (rule aggr_inv_balance_step)
  consider (L) "height l = height r + 2" | (R) "height r = height l + 2"
    | (B) "height l \<le> height r + 1" "height r \<le> height l + 1"
    using assms(5,6) by linarith
  then show ?thesis
  proof cases
    case L then show ?thesis using a assms balance_step_left_heavy [of l r v c h s] by simp
  next
    case R then show ?thesis using a assms balance_step_right_heavy [of l r v c h s] by simp
  next
    case B then show ?thesis using a assms balance_step_no_rotation [of l r v c h s] by auto
  qed
qed

theorem balance_step_repairs_witness:
  "avl (balance_step (Node (Node (Node Null (1::int) 1 1 1 Null) 2 2 2 3 Null) 3 0 0 0 Null)) \<and>
   height (balance_step (Node (Node (Node Null (1::int) 1 1 1 Null) 2 2 2 3 Null) 3 0 0 0 Null)) = 2"
  using balance_step_repairs [of "Node (Node Null (1::int) 1 1 1 Null) 2 2 2 3 Null" Null 3 0 0 0]
  by simp

end
