(* ===== verification/AVL_Tree.thy ===== *)
theory AVL_Tree
  imports AVL_Balance
begin

text \<open>
  The tree object, \<open>class AVLTree\<close> of \<open>src/onefile.cpp\<close> (lines 79--143, 261--269): the
  record of its two fields \<open>_size\<close> and \<open>root\<close>, the constructor, \<open>clear\<close> (an explicit
  stack of nodes to delete, each deletion decrementing \<open>_size\<close>), \<open>empty\<close> and \<open>size\<close>.
  The tree invariant \<open>tree_inv\<close> joins the node invariants to the agreement of the
  independently kept \<open>_size\<close> with the number of nodes.
\<close>

record 'a avl_tree =
  tree_size :: int
  root :: "'a node"

definition AVLTree :: "'a avl_tree" where
  "AVLTree = \<lparr>tree_size = 0, root = Null\<rparr>"

text \<open>
  The loop of \<open>clear\<close>. The \<open>std::vector\<close> used as a stack is a list whose head is its
  back; a popped node pushes its non-null left child, then its non-null right child, and
  \<open>_size\<close> is decremented once per deleted node. Only non-null nodes are ever pushed.
\<close>

function clear_loop :: "'a node list \<Rightarrow> int \<Rightarrow> int" where
  "clear_loop [] n = n"
| "clear_loop (node # stack) n =
     clear_loop ((if right node \<noteq> Null then [right node] else []) @
                 (if left node \<noteq> Null then [left node] else []) @ stack) (n - 1)"
  by pat_completeness auto
termination
proof (relation "measure (\<lambda>(stack, n). sum_list (map (\<lambda>t. 2 * size t + 1) stack))")
  fix node :: "'a node" and stack :: "'a node list" and n :: int
  show "(((if right node \<noteq> Null then [right node] else []) @
          (if left node \<noteq> Null then [left node] else []) @ stack, n - 1), node # stack, n)
        \<in> measure (\<lambda>(stack, n). sum_list (map (\<lambda>t. 2 * size t + 1) stack))"
    by (cases node) auto
qed simp

definition avl_clear :: "'a avl_tree \<Rightarrow> 'a avl_tree" where
  "avl_clear t =
     t\<lparr>tree_size := clear_loop (if root t \<noteq> Null then [root t] else []) (tree_size t),
       root := Null\<rparr>"

definition avl_empty :: "'a avl_tree \<Rightarrow> bool" where
  "avl_empty t \<longleftrightarrow> tree_size t = 0"

definition avl_size :: "'a avl_tree \<Rightarrow> int" where
  "avl_size t = tree_size t"

definition tree_inv :: "'a::{linorder,plus,zero} avl_tree \<Rightarrow> bool" where
  "tree_inv t \<longleftrightarrow> aggr_inv (root t) \<and> bst (root t) \<and> tree_size t = cnt (root t)"

subsection \<open>The clear loop\<close>

text \<open>Each popped node is deleted once and pushes its children, so the loop decrements
  \<open>_size\<close> once per node of the subtrees on the stack.\<close>

lemma clear_loop_count:
  "Null \<notin> set stack \<Longrightarrow>
   clear_loop stack n = n - sum_list (map (\<lambda>t. int (length (inorder t))) stack)"
proof (induction stack n rule: clear_loop.induct)
  case (1 n) then show ?case by simp
next
  case (2 node stack n)
  then obtain l v c h s r where node: "node = Node l v c h s r" by (cases node) auto
  then show ?case using 2 by (cases "l = Null"; cases "r = Null") (simp_all add: algebra_simps)
qed

lemma avl_clear_eq:
  "avl_clear t = t\<lparr>tree_size := tree_size t - int (length (inorder (root t))), root := Null\<rparr>"
  by (simp add: avl_clear_def clear_loop_count)

text \<open>
  C19. \<open>clear()\<close> empties the tree and its stack loop deletes exactly the stored nodes:
  on a tree whose \<open>_size\<close> is its node count, afterwards the root is null, \<open>size()\<close> is 0,
  \<open>empty()\<close> holds and the invariant still holds.
\<close>

theorem avl_clear_empties:
  "tree_inv t \<Longrightarrow> root (avl_clear t) = Null \<and> avl_size (avl_clear t) = 0 \<and> avl_empty (avl_clear t) \<and>
   tree_inv (avl_clear t)"
  by (simp add: avl_clear_eq avl_size_def avl_empty_def tree_inv_def bst_def aggr_simps)

theorem avl_clear_empties_witness:
  "avl_size (avl_clear \<lparr>tree_size = 1, root = Node Null (7::int) 1 1 7 Null\<rparr>) = 0"
proof -
  have "tree_inv \<lparr>tree_size = 1, root = Node Null (7::int) 1 1 7 Null\<rparr>"
    by (simp add: tree_inv_def bst_def)
  then show ?thesis using avl_clear_empties by blast
qed

end
