(* ===== verification/AVL_Insert.thy ===== *)
theory AVL_Insert
  imports AVL_Tree
begin

text \<open>
  \<open>AVLTree<T>::insert\<close> (\<open>src/onefile.cpp\<close> lines 145--164). The descent loop follows
  \<open>value > x\<close> to the left and everything else, equal values included, to the right,
  pushing the slot of every node it passes; \<open>ins_descend\<close> is that loop with the slot
  \<open>indirect\<close> and the vector \<open>path\<close> as accumulators.
\<close>

fun ins_descend :: "'a::linorder \<Rightarrow> 'a node \<Rightarrow> slot \<Rightarrow> slot list \<Rightarrow> slot \<times> slot list" where
  "ins_descend x Null p path = (p, path)"
| "ins_descend x (Node l v _ _ _ r) p path =
     (if v > x then ins_descend x l (p @ [ToLeft]) (path @ [p])
      else ins_descend x r (p @ [ToRight]) (path @ [p]))"

text \<open>
  \<open>insert\<close>: the slot where the search ends, \<open>*indirect = new AVLTreeNode<T>(value)\<close>,
  the path completed by that slot, \<open>balance(path)\<close>, then \<open>_size++\<close>.
\<close>

definition avl_insert :: "'a::{linorder,plus,zero} \<Rightarrow> 'a avl_tree \<Rightarrow> 'a avl_tree" where
  "avl_insert x t =
     (let (p, path) = ins_descend x (root t) [] [];
          r = update_slot p (\<lambda>_. new_node x) (root t)
      in t\<lparr>root := balance (path @ [p]) r, tree_size := tree_size t + 1\<rparr>)"

text \<open>
  The same insertion as a recursive function: the new leaf at the end of the search path,
  then \<open>balance_step\<close> on every node of the path on the way back up. This is the
  reference the invariants are proved for; \<open>root_avl_insert\<close> shows that the
  path-recording loop computes it.
\<close>

fun ins_rec :: "'a::{linorder,plus,zero} \<Rightarrow> 'a node \<Rightarrow> 'a node" where
  "ins_rec x Null = balance_step (new_node x)"
| "ins_rec x (Node l v c h s r) =
     balance_step (if v > x then Node (ins_rec x l) v c h s r else Node l v c h s (ins_rec x r))"

subsection \<open>The path loop computes the recursive insertion\<close>

lemma ins_descend_balance:
  assumes "get_slot p T = t"
  shows "(case ins_descend x t p path of (q, qs) \<Rightarrow>
            balance (qs @ [q]) (update_slot q (\<lambda>_. new_node x) T)) =
         balance path (update_slot p (\<lambda>_. ins_rec x t) T)"
  using assms
proof (induction x t p path arbitrary: T rule: ins_descend.induct)
  case (1 x p path)
  then show ?case
    by (simp add: balance_snoc update_slot_update_slot comp_def)
next
  case (2 x l v c h s r p path)
  show ?case
  proof (cases "v > x")
    case True
    have "get_slot (p @ [ToLeft]) T = l" using "2.prems" by (simp add: get_slot_snoc_Left)
    then have "(case ins_descend x l (p @ [ToLeft]) (path @ [p]) of (q, qs) \<Rightarrow>
            balance (qs @ [q]) (update_slot q (\<lambda>_. new_node x) T)) =
         balance (path @ [p]) (update_slot (p @ [ToLeft]) (\<lambda>_. ins_rec x l) T)"
      using True "2.IH"(1) by blast
    also have "\<dots> = balance path (update_slot p (\<lambda>_. ins_rec x (Node l v c h s r)) T)"
      using True "2.prems"
      by (simp add: balance_snoc update_slot_snoc_Left update_slot_update_slot comp_def)
         (subst update_slot_get_slot, simp)
    finally show ?thesis using True by simp
  next
    case False
    have "get_slot (p @ [ToRight]) T = r" using "2.prems" by (simp add: get_slot_snoc_Right)
    then have "(case ins_descend x r (p @ [ToRight]) (path @ [p]) of (q, qs) \<Rightarrow>
            balance (qs @ [q]) (update_slot q (\<lambda>_. new_node x) T)) =
         balance (path @ [p]) (update_slot (p @ [ToRight]) (\<lambda>_. ins_rec x r) T)"
      using False "2.IH"(2) by blast
    also have "\<dots> = balance path (update_slot p (\<lambda>_. ins_rec x (Node l v c h s r)) T)"
      using False "2.prems"
      by (simp add: balance_snoc update_slot_snoc_Right update_slot_update_slot comp_def)
         (subst update_slot_get_slot, simp)
    finally show ?thesis using False by simp
  qed
qed

text \<open>The pointer-path insertion is the recursive one.\<close>

lemma root_avl_insert: "root (avl_insert x t) = ins_rec x (root t)"
  using ins_descend_balance [of "[]" "root t" "root t" x "[]"]
  by (simp add: avl_insert_def split: prod.splits)


subsection \<open>Properties of the recursive insertion\<close>

lemma ins_rec_not_Null [simp]: "ins_rec x t \<noteq> Null"
proof -
  have "balance_step t \<noteq> Null" if "t \<noteq> Null" for t :: "'a node"
    using that by (cases t) (auto simp: balance_step_def Let_def)
  then show ?thesis by (cases t) (auto simp: new_node_def)
qed

lemma mset_ins_rec: "mset (inorder (ins_rec x t)) = add_mset x (mset (inorder t))"
  by (induction t) (auto simp: new_node_def)

lemma set_ins_rec: "set (inorder (ins_rec x t)) = insert x (set (inorder t))"
  by (metis mset_ins_rec set_mset_add_mset_insert set_mset_mset)

lemma sorted_ins_rec: "sorted (inorder t) \<Longrightarrow> sorted (inorder (ins_rec x t))"
  by (induction t) (auto simp: new_node_def sorted_mid_iff set_ins_rec)

lemma inorder_ins_rec: "sorted (inorder t) \<Longrightarrow> inorder (ins_rec x t) = insort x (inorder t)"
proof -
  assume "sorted (inorder t)"
  then have "inorder (ins_rec x t) = sort (x # inorder t)"
    by (intro properties_for_sort [symmetric]) (simp_all add: mset_ins_rec sorted_ins_rec)
  with \<open>sorted (inorder t)\<close> show ?thesis by (simp add: sorted_sort_id)
qed

lemma aggr_inv_ins_rec: "aggr_inv t \<Longrightarrow> aggr_inv (ins_rec x t)"
proof (induction t)
  case Null then show ?case by (simp add: new_node_def balance_step_def)
next
  case (Node l v c h s r) then show ?case by (simp add: aggr_inv_balance_step)
qed

text \<open>Insertion keeps the tree balanced and grows it by at most one level; when it grows a
  non-empty subtree, the new root leans to one side, so a rotation above it is a single or a
  proper double one.\<close>

lemma avl_ins_rec:
  "aggr_inv t \<Longrightarrow> avl t \<Longrightarrow>
   avl (ins_rec x t) \<and>
   (height (ins_rec x t) = height t \<or>
    height (ins_rec x t) = height t + 1 \<and>
    (t \<noteq> Null \<longrightarrow> height (left (ins_rec x t)) \<noteq> height (right (ins_rec x t))))"
proof (induction t)
  case Null then show ?case by (simp add: new_node_def balance_step_def)
next
  case (Node l v c h s r)
  then have inv: "aggr_inv l" "aggr_inv r" "avl l" "avl r"
    "height l \<le> height r + 1" "height r \<le> height l + 1" by auto
  show ?case
  proof (cases "v > x")
    case True
    let ?l = "ins_rec x l"
    have IH: "avl ?l" "height ?l = height l \<or> height ?l = height l + 1 \<and>
        (l \<noteq> Null \<longrightarrow> height (left ?l) \<noteq> height (right ?l))" "aggr_inv ?l"
      using Node.IH(1) inv by (auto simp: aggr_inv_ins_rec)
    show ?thesis
    proof (cases "height ?l = height r + 2")
      case True
      then have "l \<noteq> Null" "height (left ?l) \<noteq> height (right ?l)" using IH(2) inv by auto
      then show ?thesis using True \<open>v > x\<close> IH inv balance_step_left_heavy [of ?l r] by auto
    next
      case False
      then have b: "height ?l \<le> height r + 1" "height r \<le> height ?l + 1" using IH(2) inv by auto
      have eq: "ins_rec x (Node l v c h s r) = updateValues (Node ?l v c h s r)"
        using \<open>v > x\<close> IH(3) inv(2) b by (simp add: balance_step_no_rotation)
      show ?thesis unfolding eq using IH(1,2) inv b by (cases r) (auto simp: max_def)
    qed
  next
    case False
    let ?r = "ins_rec x r"
    have IH: "avl ?r" "height ?r = height r \<or> height ?r = height r + 1 \<and>
        (r \<noteq> Null \<longrightarrow> height (left ?r) \<noteq> height (right ?r))" "aggr_inv ?r"
      using Node.IH(2) inv by (auto simp: aggr_inv_ins_rec)
    show ?thesis
    proof (cases "height ?r = height l + 2")
      case True
      then have "r \<noteq> Null" "height (left ?r) \<noteq> height (right ?r)" using IH(2) inv by auto
      then show ?thesis using True \<open>\<not> v > x\<close> IH inv balance_step_right_heavy [of l ?r] by auto
    next
      case False
      then have b: "height ?r \<le> height l + 1" "height l \<le> height ?r + 1" using IH(2) inv by auto
      have eq: "ins_rec x (Node l v c h s r) = updateValues (Node l v c h s ?r)"
        using \<open>\<not> v > x\<close> IH(3) inv(1) b by (simp add: balance_step_no_rotation)
      show ?thesis unfolding eq using IH(1,2) inv b by (cases l) (auto simp: max_def)
    qed
  qed
qed


subsection \<open>Insertion on the tree object\<close>

lemma avl_insert_eq:
  "avl_insert x t = t\<lparr>root := ins_rec x (root t), tree_size := tree_size t + 1\<rparr>"
  using root_avl_insert [of x t] by (simp add: avl_insert_def split: prod.splits)

lemma tree_inv_avl_insert:
  "tree_inv t \<Longrightarrow> tree_inv (avl_insert x t)"
proof -
  assume "tree_inv t"
  then have "aggr_inv (root t)" "sorted (inorder (root t))" "tree_size t = cnt (root t)"
    by (simp_all add: tree_inv_def bst_def)
  moreover have "length (inorder (ins_rec x (root t))) = Suc (length (inorder (root t)))"
    using mset_ins_rec [of x "root t"] by (metis size_add_mset size_mset)
  ultimately show ?thesis
    by (simp add: avl_insert_eq tree_inv_def bst_def aggr_inv_ins_rec sorted_ins_rec aggr_simps)
qed

lemma avl_avl_insert:
  "tree_inv t \<Longrightarrow> avl (root t) \<Longrightarrow> avl (root (avl_insert x t))"
  using avl_ins_rec [of "root t" x] by (simp add: avl_insert_eq tree_inv_def)

subsection \<open>Properties of \<open>insert\<close>\<close>

text \<open>
  C1. Insertion keeps the tree invariant and the AVL balance: starting from a tree whose
  cached aggregates are right, whose in-order sequence is sorted, whose \<open>_size\<close> is its
  node count and whose every node has subtrees differing in height by at most one,
  \<open>insert\<close> returns a tree with all four properties.
\<close>

theorem avl_insert_keeps_avl_invariant:
  "tree_inv t \<Longrightarrow> avl (root t) \<Longrightarrow> tree_inv (avl_insert x t) \<and> avl (root (avl_insert x t))"
  by (simp add: tree_inv_avl_insert avl_avl_insert)

theorem avl_insert_keeps_avl_invariant_witness:
  "tree_inv (AVLTree :: int avl_tree) \<and> avl (root (AVLTree :: int avl_tree)) \<and>
   tree_inv (avl_insert 3 (avl_insert (5::int) AVLTree)) \<and> avl (root (avl_insert 3 (avl_insert (5::int) AVLTree)))"
proof -
  have h: "tree_inv (avl_insert (5::int) AVLTree)" "avl (root (avl_insert (5::int) AVLTree))"
    by (simp_all add: AVLTree_def tree_inv_def bst_def avl_insert_eq new_node_def balance_step_def)
  have "tree_inv (AVLTree :: int avl_tree)" "avl (root (AVLTree :: int avl_tree))"
    by (simp_all add: AVLTree_def tree_inv_def bst_def)
  then show ?thesis using avl_insert_keeps_avl_invariant [OF h, of 3] by simp
qed

text \<open>
  C4. Insertion is insertion into the sorted sequence: on a tree satisfying the invariant,
  the in-order sequence after \<open>insert x\<close> is the old one with \<open>x\<close> inserted in order
  (duplicates kept), and \<open>size()\<close> grows by one.
\<close>

theorem avl_insert_contents:
  "tree_inv t \<Longrightarrow>
   inorder (root (avl_insert x t)) = insort x (inorder (root t)) \<and> avl_size (avl_insert x t) = avl_size t + 1"
  by (simp add: avl_insert_eq avl_size_def tree_inv_def bst_def inorder_ins_rec)

theorem avl_insert_contents_witness:
  "tree_inv (avl_insert (2::int) AVLTree) \<and>
   inorder (root (avl_insert 2 (avl_insert (2::int) AVLTree))) = [2, 2] \<and>
   avl_size (avl_insert 2 (avl_insert (2::int) AVLTree)) = 2"
proof -
  have h: "tree_inv (avl_insert (2::int) AVLTree)"
    by (simp add: AVLTree_def tree_inv_def bst_def avl_insert_eq new_node_def balance_step_def)
  have "inorder (root (avl_insert (2::int) AVLTree)) = [2]" "avl_size (avl_insert (2::int) AVLTree) = 1"
    by (simp_all add: AVLTree_def avl_insert_eq avl_size_def new_node_def balance_step_def)
  then show ?thesis using h avl_insert_contents [OF h, of 2] by simp
qed

text \<open>
  C10. The pointer-path code of \<open>insert\<close> (descent recording owning slots, new leaf,
  bottom-up \<open>balance\<close> over the recorded slots, \<open>_size++\<close>) computes, for every tree, the
  recursive insertion \<open>ins_rec\<close> that rebalances each node of the search path on the way up.
\<close>

theorem avl_insert_refines_ins_rec:
  "avl_insert x t = t\<lparr>root := ins_rec x (root t), tree_size := tree_size t + 1\<rparr>"
  using ins_descend_balance [where p = "[]" and T = "root t" and t = "root t" and path = "[]" and x = x]
  by (simp add: avl_insert_def split: prod.splits)

subsection \<open>A small example tree\<close>

lemma tree_inv_small_example:
  "tree_inv (avl_insert (1::int) (avl_insert 3 (avl_insert 5 AVLTree)))"
  by (simp add: AVLTree_def tree_inv_def bst_def avl_insert_eq new_node_def balance_step_def)

lemma avl_small_example:
  "avl (root (avl_insert (1::int) (avl_insert 3 (avl_insert 5 AVLTree))))"
  by (simp add: AVLTree_def avl_insert_eq new_node_def balance_step_def)

lemma inorder_small_example:
  "inorder (root (avl_insert (1::int) (avl_insert 3 (avl_insert 5 AVLTree)))) = [1, 3, 5]"
  by (simp add: AVLTree_def avl_insert_eq new_node_def balance_step_def)

end
