(* ===== verification/AVL_Erase.thy ===== *)
theory AVL_Erase
  imports AVL_Insert
begin

text \<open>
  \<open>AVLTree<T>::erase\<close> (\<open>src/onefile.cpp\<close> lines 166--234). The search loop stops at
  the first node whose value equals the argument; if it reaches null the call returns
  with nothing changed. Otherwise the found slot is pushed and one of three splices runs:
  a leaf is cleared, a node with only a left child is replaced by it (both pop the slot
  again), and a node with a right child is replaced by its in-order successor, found by a
  second loop down the left spine of the right subtree that pushes the slots it passes.
  When the successor is not the right child itself, the successor's parent takes the
  successor's right subtree, the successor takes both children of the erased node, and
  \<open>path[index]\<close> is redirected to the successor's right field; in slot positions this is
  the position the erased node's right field had, so the rewrite keeps the path valid.
  \<open>balance\<close> then runs on the path and \<open>_size\<close> is decremented.

  \<open>del_rec\<close> is the same deletion written recursively (\<open>del_min\<close> splices the leftmost
  node of a subtree out and rebalances the spine, \<open>del_root\<close> is the three cases), and
  \<open>avl_erase_eq\<close> shows that the path-recording code computes it.
\<close>

subsection \<open>The code\<close>

fun del_descend :: "'a \<Rightarrow> 'a::linorder node \<Rightarrow> slot \<Rightarrow> slot list \<Rightarrow> slot \<times> slot list" where
  "del_descend x Null p path = (p, path)"
| "del_descend x (Node l v _ _ _ r) p path =
     (if v \<noteq> x then
        (if v > x then del_descend x l (p @ [ToLeft]) (path @ [p])
         else del_descend x r (p @ [ToRight]) (path @ [p]))
      else (p, path))"

text \<open>\<open>while ((*successor)->left != nullptr) { path.push_back(successor); ... }\<close>\<close>

fun succ_descend :: "'a node \<Rightarrow> slot \<Rightarrow> slot list \<Rightarrow> slot \<times> slot list" where
  "succ_descend Null s path = (s, path)"
| "succ_descend (Node l _ _ _ _ _) s path =
     (if l \<noteq> Null then succ_descend l (s @ [ToLeft]) (path @ [s]) else (s, path))"

text \<open>
  Everything after the search loop found the node in slot \<open>p\<close>: \<open>path.push_back\<close>,
  \<open>index = path.size()\<close>, the three splices and \<open>balance(path)\<close>. The test
  \<open>*successor == (*indirect)->right\<close> compares node pointers; the node in slot \<open>sp\<close> is
  the right child exactly when \<open>sp\<close> is the right child's slot.
\<close>

definition erase_found :: "slot \<Rightarrow> slot list \<Rightarrow> 'a::{plus,zero} node \<Rightarrow> 'a node" where
  "erase_found p path T =
     (let path = path @ [p]; index = length path; d = get_slot p T in
      if left d = Null \<and> right d = Null then
        balance (butlast path) (update_slot p (\<lambda>_. Null) T)
      else if right d = Null then
        balance (butlast path) (update_slot p (\<lambda>_. left d) T)
      else
        (let (sp, path) = succ_descend (right d) (p @ [ToRight]) path;
             suc = get_slot sp T in
         if sp = p @ [ToRight] then
           balance path (update_slot p (\<lambda>_. set_left suc (left d)) T)
         else
           (let T1 = update_slot (last path) (\<lambda>tmp. set_left tmp (right suc)) T;
                d1 = get_slot p T1;
                T2 = update_slot p (\<lambda>_. set_right (set_left suc (left d1)) (right d1)) T1
            in balance (path[index := p @ [ToRight]]) T2)))"

text \<open>The search loop, the not-found return, the splice, \<open>_size--\<close>.\<close>

definition avl_erase :: "'a::{linorder,plus,zero} \<Rightarrow> 'a avl_tree \<Rightarrow> 'a avl_tree" where
  "avl_erase x t =
     (let (p, path) = del_descend x (root t) [] [] in
      if get_slot p (root t) = Null then t
      else t\<lparr>root := erase_found p path (root t), tree_size := tree_size t - 1\<rparr>)"

subsection \<open>The recursive reference\<close>

fun del_min :: "'a::{plus,zero} node \<Rightarrow> 'a node \<times> 'a node" where
  "del_min Null = (Null, Null)"
| "del_min (Node l v c h s r) =
     (if l = Null then (Node l v c h s r, r)
      else let (m, l') = del_min l in (m, balance_step (Node l' v c h s r)))"

definition del_root :: "'a::{plus,zero} node \<Rightarrow> 'a node \<Rightarrow> 'a node" where
  "del_root l r =
     (if l = Null \<and> r = Null then Null
      else if r = Null then l
      else let (m, r') = del_min r in balance_step (set_right (set_left m l) r'))"

fun del_rec :: "'a \<Rightarrow> 'a::{linorder,plus,zero} node \<Rightarrow> 'a node option" where
  "del_rec x Null = None"
| "del_rec x (Node l v c h s r) =
     (if v \<noteq> x then
        (if v > x then map_option (\<lambda>l'. balance_step (Node l' v c h s r)) (del_rec x l)
         else map_option (\<lambda>r'. balance_step (Node l v c h s r')) (del_rec x r))
      else Some (del_root l r))"

subsection \<open>The path-recording erase computes the recursive one\<close>

lemma succ_descend_shift_gen:
  "succ_descend n (a @ s) (path @ map ((@) a) ps) =
   (case succ_descend n s ps of (sp, qs) \<Rightarrow> (a @ sp, path @ map ((@) a) qs))"
  by (induction n s ps rule: succ_descend.induct) (auto split: prod.splits)

lemma succ_descend_shift:
  "succ_descend n (a @ s) path = (case succ_descend n s [] of (sp, qs) \<Rightarrow> (a @ sp, path @ map ((@) a) qs))"
  using succ_descend_shift_gen [of n a s path "[]"] by simp


lemma del_min_fst_not_Null: "t \<noteq> Null \<Longrightarrow> fst (del_min t) \<noteq> Null"
  by (induction t rule: del_min.induct) (auto split: prod.splits)

lemma set_right_set_left_Node [simp]:
  "set_right (set_left (Node a v c h s b) l) r = Node l v c h s r"
  by simp

text \<open>The successor loop walks the left spine of a subtree whose root has a left child;
  splicing the leftmost node out and rebalancing the spine bottom-up is \<open>del_min\<close>.\<close>

lemma succ_descend_spine:
  assumes "get_slot s T = n" "left n \<noteq> Null"
  shows "\<exists>qs. succ_descend n s path0 = (last qs @ [ToLeft], path0 @ qs) \<and> qs \<noteq> [] \<and> hd qs = s \<and>
           get_slot (last qs @ [ToLeft]) T = fst (del_min n) \<and>
           balance qs (update_slot (last qs) (\<lambda>tmp. set_left tmp (right (fst (del_min n)))) T) =
           update_slot s (\<lambda>_. snd (del_min n)) T"
  using assms
proof (induction n s path0 rule: succ_descend.induct)
  case (1 s path) then show ?case by simp
next
  case (2 l v c h s' r s path)
  have ls: "get_slot (s @ [ToLeft]) T = l" using "2.prems"(1) by (simp add: get_slot_snoc_Left)
  have l: "l \<noteq> Null" using "2.prems"(2) by simp
  show ?case
  proof (cases "left l = Null")
    case True
    then obtain a x c1 h1 s1 where lN: "l = Node Null x c1 h1 s1 a" using l by (cases l) auto
    have "balance [s] (update_slot s (\<lambda>tmp. set_left tmp a) T) =
          update_slot s (\<lambda>_. balance_step (Node a v c h s' r)) T"
      using "2.prems"(1) by (simp add: balance_def update_slot_update_slot comp_def)
        (subst update_slot_get_slot, simp)
    then show ?thesis using lN ls by (intro exI [of _ "[s]"]) simp
  next
    case False
    obtain qs where IH: "succ_descend l (s @ [ToLeft]) (path @ [s]) = (last qs @ [ToLeft], (path @ [s]) @ qs)"
      "qs \<noteq> []" "hd qs = s @ [ToLeft]" "get_slot (last qs @ [ToLeft]) T = fst (del_min l)"
      "balance qs (update_slot (last qs) (\<lambda>tmp. set_left tmp (right (fst (del_min l)))) T) =
       update_slot (s @ [ToLeft]) (\<lambda>_. snd (del_min l)) T"
      using "2.IH" [OF l ls False] by blast
    have "balance (s # qs) (update_slot (last qs) (\<lambda>tmp. set_left tmp (right (fst (del_min l)))) T) =
          update_slot s (\<lambda>_. balance_step (Node (snd (del_min l)) v c h s' r)) T"
      using IH(5) "2.prems"(1) balance_append [of "[s]" qs]
      by (simp add: balance_def update_slot_snoc_Left update_slot_update_slot comp_def)
        (subst update_slot_get_slot, simp)
    then show ?thesis using IH l by (intro exI [of _ "s # qs"]) (auto split: prod.splits)
  qed
qed


lemma erase_found_del_root:
  assumes p: "get_slot p T = Node l v c h s r"
  shows "erase_found p path T = balance path (update_slot p (\<lambda>_. del_root l r) T)"
proof -
  consider (leaf) "l = Null" "r = Null" | (only_left) "r = Null" "l \<noteq> Null"
    | (adjacent) "r \<noteq> Null" "left r = Null" | (spine) "left r \<noteq> Null"
    by (cases r) auto
  then show ?thesis
  proof cases
    case leaf
    then show ?thesis using p by (simp add: erase_found_def del_root_def)
  next
    case only_left
    then show ?thesis using p by (simp add: erase_found_def del_root_def)
  next
    case adjacent
    then obtain a y c1 h1 s1 where r: "r = Node Null y c1 h1 s1 a" by (cases r) auto
    have "succ_descend r (p @ [ToRight]) (path @ [p]) = (p @ [ToRight], path @ [p])"
      using r by simp
    moreover have "get_slot (p @ [ToRight]) T = r" using p by (simp add: get_slot_snoc_Right)
    ultimately show ?thesis using p r
      by (simp add: erase_found_def del_root_def balance_snoc update_slot_update_slot comp_def)
  next
    case spine
    obtain qs where S: "succ_descend r [] [] = (last qs @ [ToLeft], qs)" "qs \<noteq> []" "hd qs = []"
      "get_slot (last qs @ [ToLeft]) r = fst (del_min r)"
      "balance qs (update_slot (last qs) (\<lambda>tmp. set_left tmp (right (fst (del_min r)))) r) =
       snd (del_min r)"
      using succ_descend_spine [of "[]" r r "[]"] spine by auto
    define m where "m = fst (del_min r)"
    define R1 where "R1 = update_slot (last qs) (\<lambda>tmp. set_left tmp (right m)) r"
    have pr: "get_slot (p @ [ToRight]) T = r" using p by (simp add: get_slot_snoc_Right)
    have sd: "succ_descend r (p @ [ToRight]) (path @ [p]) =
        ((p @ [ToRight]) @ last qs @ [ToLeft], (path @ [p]) @ map ((@) (p @ [ToRight])) qs)"
      using succ_descend_shift [of r "p @ [ToRight]" "[]" "path @ [p]"] S(1) by simp
    have suc: "get_slot ((p @ [ToRight]) @ last qs @ [ToLeft]) T = m"
      unfolding get_slot_append [of "p @ [ToRight]"] pr using S(4) by (simp add: m_def)
    have idx: "((path @ [p]) @ map ((@) (p @ [ToRight])) qs)[length (path @ [p]) := p @ [ToRight]] =
        (path @ [p]) @ map ((@) (p @ [ToRight])) qs"
      using S(2,3) by (cases qs) (auto simp: list_update_append)
    have last_path: "last ((path @ [p]) @ map ((@) (p @ [ToRight])) qs) = (p @ [ToRight]) @ last qs"
      using S(2) by (simp add: last_map)
    have T1: "update_slot ((p @ [ToRight]) @ last qs) (\<lambda>tmp. set_left tmp (right m)) T =
        update_slot p (\<lambda>_. Node l v c h s R1) T"
      using p pr by (simp add: update_slot_append update_slot_snoc_Right R1_def)
        (subst update_slot_get_slot, simp)
    have rN: "r \<noteq> Null" using spine by (cases r) auto
    have m: "m \<noteq> Null" using spine del_min_fst_not_Null [of r] by (cases r) (auto simp: m_def)
    have "erase_found p path T =
        balance ((path @ [p]) @ map ((@) (p @ [ToRight])) qs)
          (update_slot p (\<lambda>_. set_right (set_left m l) R1) T)"
      using p sd suc idx last_path T1 S(2) rN
      by (simp add: erase_found_def Let_def update_slot_update_slot comp_def get_slot_update_slot)
    also have "\<dots> = balance (path @ [p]) (update_slot (p @ [ToRight]) (balance qs)
        (update_slot p (\<lambda>_. set_right (set_left m l) R1) T))"
      by (simp only: balance_append balance_shift)
    also have "\<dots> = balance (path @ [p])
        (update_slot p (\<lambda>_. set_right (set_left m l) (snd (del_min r))) T)"
      using m S(5)
      by (simp add: update_slot_snoc_Right update_slot_update_slot comp_def R1_def m_def)
    also have "\<dots> = balance path (update_slot p (\<lambda>_. del_root l r) T)"
      using rN by (simp add: balance_snoc update_slot_update_slot comp_def del_root_def m_def
          split: prod.splits)
    finally show ?thesis .
  qed
qed


lemma del_descend_erase:
  assumes "get_slot p T = t"
  shows "case del_descend x t p path of (q, qs) \<Rightarrow>
           (case del_rec x t of
              None \<Rightarrow> get_slot q T = Null
            | Some t' \<Rightarrow> get_slot q T \<noteq> Null \<and>
                erase_found q qs T = balance path (update_slot p (\<lambda>_. t') T))"
  using assms
proof (induction x t p path arbitrary: T rule: del_descend.induct)
  case (1 x p path) then show ?case by simp
next
  case (2 x l v c h s r p path)
  show ?case
  proof (cases "v = x")
    case True
    then show ?thesis using "2.prems" by (simp add: erase_found_del_root)
  next
    case ne: False
    show ?thesis
    proof (cases "v > x")
      case True
      have "get_slot (p @ [ToLeft]) T = l" using "2.prems" by (simp add: get_slot_snoc_Left)
      note IH = "2.IH"(1) [OF ne True this]
      show ?thesis
      proof (cases "del_rec x l")
        case None then show ?thesis using IH ne True by (simp split: prod.splits)
      next
        case (Some l')
        have "balance (path @ [p]) (update_slot (p @ [ToLeft]) (\<lambda>_. l') T) =
              balance path (update_slot p (\<lambda>_. balance_step (Node l' v c h s r)) T)"
          using "2.prems"
          by (simp add: balance_snoc update_slot_snoc_Left update_slot_update_slot comp_def)
            (subst update_slot_get_slot, simp)
        then show ?thesis using IH ne True Some by (simp split: prod.splits)
      qed
    next
      case False
      have "get_slot (p @ [ToRight]) T = r" using "2.prems" by (simp add: get_slot_snoc_Right)
      note IH = "2.IH"(2) [OF ne False this]
      show ?thesis
      proof (cases "del_rec x r")
        case None then show ?thesis using IH ne False by (simp split: prod.splits)
      next
        case (Some r')
        have "balance (path @ [p]) (update_slot (p @ [ToRight]) (\<lambda>_. r') T) =
              balance path (update_slot p (\<lambda>_. balance_step (Node l v c h s r')) T)"
          using "2.prems"
          by (simp add: balance_snoc update_slot_snoc_Right update_slot_update_slot comp_def)
            (subst update_slot_get_slot, simp)
        then show ?thesis using IH ne False Some by (simp split: prod.splits)
      qed
    qed
  qed
qed

lemma avl_erase_eq:
  "avl_erase x t =
     (case del_rec x (root t) of
        None \<Rightarrow> t
      | Some t' \<Rightarrow> t\<lparr>root := t', tree_size := tree_size t - 1\<rparr>)"
  using del_descend_erase [where p = "[]" and T = "root t" and t = "root t" and path = "[]" and x = x]
  by (auto simp: avl_erase_def split: prod.splits option.splits)


subsection \<open>Properties of the recursive deletion\<close>

lemma inorder_del_min:
  "t \<noteq> Null \<Longrightarrow> inorder t = node_value (fst (del_min t)) # inorder (snd (del_min t))"
  by (induction t rule: del_min.induct) (auto split: prod.splits)

lemma inorder_del_root: "inorder (del_root l r) = inorder l @ inorder r"
proof (cases "r = Null")
  case False
  then have "fst (del_min r) \<noteq> Null" by (rule del_min_fst_not_Null)
  then show ?thesis using inorder_del_min [OF False]
    by (auto simp: del_root_def split: prod.splits)
qed (simp add: del_root_def)

lemma del_rec_Some_split:
  "del_rec x t = Some t' \<Longrightarrow> \<exists>xs ys. inorder t = xs @ x # ys \<and> inorder t' = xs @ ys"
proof (induction x t arbitrary: t' rule: del_rec.induct)
  case (1 x) then show ?case by simp
next
  case (2 x l v c h s r)
  consider (eq) "v = x" | (lt) "v \<noteq> x" "v > x" | (gt) "v \<noteq> x" "\<not> v > x" by blast
  then show ?case
  proof cases
    case eq
    then show ?thesis using "2.prems"
      by (intro exI [of _ "inorder l"] exI [of _ "inorder r"]) (auto simp: inorder_del_root)
  next
    case lt
    then obtain l' where l': "del_rec x l = Some l'" "t' = balance_step (Node l' v c h s r)"
      using "2.prems" by auto
    then obtain xs ys where "inorder l = xs @ x # ys" "inorder l' = xs @ ys"
      using "2.IH"(1) [OF lt] by blast
    then show ?thesis using l'(2)
      by (intro exI [of _ xs] exI [of _ "ys @ v # inorder r"]) simp
  next
    case gt
    then obtain r' where r': "del_rec x r = Some r'" "t' = balance_step (Node l v c h s r')"
      using "2.prems" by auto
    then obtain xs ys where "inorder r = xs @ x # ys" "inorder r' = xs @ ys"
      using "2.IH"(2) [OF gt] by blast
    then show ?thesis using r'(2)
      by (intro exI [of _ "inorder l @ v # xs"] exI [of _ ys]) simp
  qed
qed

lemma del_rec_None_iff:
  "sorted (inorder t) \<Longrightarrow> del_rec x t = None \<longleftrightarrow> x \<notin> set (inorder t)"
proof (induction x t rule: del_rec.induct)
  case (1 x) then show ?case by simp
next
  case (2 x l v c h s r)
  then show ?case by (auto simp: sorted_mid_iff)
qed

lemma aggr_inv_del_min:
  "aggr_inv t \<Longrightarrow> aggr_inv (snd (del_min t))"
  by (induction t rule: del_min.induct) (auto simp: aggr_inv_balance_step split: prod.splits)

lemma aggr_inv_del_root: "aggr_inv l \<Longrightarrow> aggr_inv r \<Longrightarrow> aggr_inv (del_root l r)"
proof (cases "r = Null")
  case False
  assume "aggr_inv l" "aggr_inv r"
  moreover obtain m r' where "del_min r = (m, r')" by fastforce
  moreover have "m \<noteq> Null" using del_min_fst_not_Null [OF False] calculation(3) by simp
  ultimately show ?thesis using aggr_inv_del_min [of r] False
    by (cases m) (auto simp: del_root_def aggr_inv_balance_step)
qed (simp add: del_root_def)

lemma aggr_inv_del_rec: "aggr_inv t \<Longrightarrow> del_rec x t = Some t' \<Longrightarrow> aggr_inv t'"
  by (induction x t arbitrary: t' rule: del_rec.induct)
    (auto simp: aggr_inv_balance_step aggr_inv_del_root split: if_splits)

subsection \<open>Erase on the tree object\<close>

lemma inorder_del_rec:
  "sorted (inorder t) \<Longrightarrow> del_rec x t = Some t' \<Longrightarrow> inorder t' = remove1 x (inorder t)"
proof -
  assume s: "sorted (inorder t)" and d: "del_rec x t = Some t'"
  then obtain xs ys where xy: "inorder t = xs @ x # ys" "inorder t' = xs @ ys"
    using del_rec_Some_split by blast
  have "sorted (xs @ ys)" using s xy(1) by (simp add: sorted_append)
  moreover have "sorted (remove1 x (inorder t))" using s by (rule sorted_remove1)
  moreover have "mset (xs @ ys) = mset (remove1 x (inorder t))" using xy(1) by simp
  ultimately show ?thesis using xy(2) by (simp add: sorted_mset_unique)
qed

lemma avl_erase_absent: "sorted (inorder (root t)) \<Longrightarrow> x \<notin> set (inorder (root t)) \<Longrightarrow> avl_erase x t = t"
  using del_rec_None_iff [of "root t" x] by (simp add: avl_erase_eq)

lemma avl_erase_present:
  assumes "tree_inv t" "x \<in> set (inorder (root t))"
  shows "tree_inv (avl_erase x t) \<and> inorder (root (avl_erase x t)) = remove1 x (inorder (root t)) \<and>
         tree_size (avl_erase x t) = tree_size t - 1"
proof -
  have inv: "aggr_inv (root t)" "sorted (inorder (root t))" "tree_size t = cnt (root t)"
    using assms(1) by (simp_all add: tree_inv_def bst_def)
  then obtain t' where d: "del_rec x (root t) = Some t'" using assms(2) del_rec_None_iff by fastforce
  have io: "inorder t' = remove1 x (inorder (root t))" using inorder_del_rec [OF inv(2) d] .
  obtain n where n: "length (inorder (root t)) = Suc n"
    using length_pos_if_in_set [OF assms(2)] by (cases "length (inorder (root t))") auto
  then have "int (length (inorder t')) = int (length (inorder (root t))) - 1"
    using io assms(2) by (simp add: length_remove1)
  then show ?thesis using d io inv aggr_inv_del_rec [OF inv(1) d] sorted_remove1 [OF inv(2)]
    by (simp add: avl_erase_eq tree_inv_def bst_def aggr_simps)
qed

lemma tree_inv_avl_erase: "tree_inv t \<Longrightarrow> tree_inv (avl_erase x t)"
proof (cases "x \<in> set (inorder (root t))")
  case True
  assume "tree_inv t"
  then show ?thesis using avl_erase_present [of t x] True by blast
next
  case False
  assume "tree_inv t"
  then show ?thesis using avl_erase_absent [of t x] False by (simp add: tree_inv_def bst_def)
qed

subsection \<open>Properties of \<open>erase\<close>\<close>

text \<open>
  C3. Erasure keeps the order and bookkeeping invariant: on a tree whose cached aggregates
  are right, whose in-order sequence is sorted and whose \<open>_size\<close> is its node count,
  \<open>erase x\<close> returns a tree with the same three properties, whether or not \<open>x\<close> occurs.
  (The AVL balance is not among them; see \<open>erase_unbalances_counterexample\<close>.)
\<close>

theorem avl_erase_keeps_order_invariant:
  "tree_inv t \<Longrightarrow> tree_inv (avl_erase x t)"
  by (rule tree_inv_avl_erase)

theorem avl_erase_keeps_order_invariant_witness:
  "tree_inv (avl_insert (4::int) AVLTree) \<and> tree_inv (avl_erase 4 (avl_insert (4::int) AVLTree))"
proof -
  have h: "tree_inv (avl_insert (4::int) AVLTree)"
    by (simp add: AVLTree_def tree_inv_def bst_def avl_insert_eq new_node_def balance_step_def)
  show ?thesis using h avl_erase_keeps_order_invariant [OF h, of 4] by simp
qed

text \<open>
  C5. Erasure removes one occurrence: on a tree satisfying the invariant, the in-order
  sequence after \<open>erase x\<close> is the old one with one occurrence of \<open>x\<close> removed, and
  \<open>size()\<close> drops by one exactly when \<open>x\<close> was present.
\<close>

theorem avl_erase_contents:
  "tree_inv t \<Longrightarrow>
   inorder (root (avl_erase x t)) = remove1 x (inorder (root t)) \<and>
   avl_size (avl_erase x t) = (if x \<in> set (inorder (root t)) then avl_size t - 1 else avl_size t)"
  using avl_erase_present [of t x] avl_erase_absent [of t x]
  by (cases "x \<in> set (inorder (root t))") (auto simp: avl_size_def tree_inv_def bst_def remove1_idem)

theorem avl_erase_contents_witness:
  "tree_inv (avl_insert (4::int) (avl_insert 7 AVLTree)) \<and>
   inorder (root (avl_erase 7 (avl_insert (4::int) (avl_insert 7 AVLTree)))) = [4] \<and>
   avl_size (avl_erase 7 (avl_insert (4::int) (avl_insert 7 AVLTree))) = 1"
proof -
  let ?t = "avl_insert (4::int) (avl_insert 7 AVLTree)"
  have h: "tree_inv ?t"
    by (simp add: AVLTree_def tree_inv_def bst_def avl_insert_eq new_node_def balance_step_def)
  have "inorder (root ?t) = [4, 7]" "avl_size ?t = 2"
    by (simp_all add: AVLTree_def avl_insert_eq avl_size_def new_node_def balance_step_def)
  then show ?thesis using h avl_erase_contents [OF h, of 7] by simp
qed

text \<open>
  C11. The pointer-path code of \<open>erase\<close> (search loop, not-found return, the three
  splices with the successor loop and the \<open>path[index]\<close> rewrite, bottom-up \<open>balance\<close>,
  \<open>_size--\<close>) computes, for every tree, the recursive deletion \<open>del_rec\<close>: when
  \<open>del_rec\<close> finds nothing the tree is returned unchanged, otherwise its result becomes the
  root and the size is decremented.
\<close>

theorem avl_erase_refines_del_rec:
  "root (avl_erase x t) = (case del_rec x (root t) of None \<Rightarrow> root t | Some t' \<Rightarrow> t') \<and>
   tree_size (avl_erase x t) = (if del_rec x (root t) = None then tree_size t else tree_size t - 1)"
  by (simp add: avl_erase_eq split: option.splits)

text \<open>
  C23. Erasing a value that does not occur is a complete no-op, as the early
  \<open>return\<close> intends: the same tree, no rebalancing, no change of \<open>_size\<close>.
\<close>

theorem avl_erase_absent_noop:
  "tree_inv t \<Longrightarrow> x \<notin> set (inorder (root t)) \<Longrightarrow> avl_erase x t = t"
  by (simp add: avl_erase_absent tree_inv_def bst_def)

theorem avl_erase_absent_noop_witness:
  "tree_inv (avl_insert (4::int) AVLTree) \<and> 9 \<notin> set (inorder (root (avl_insert (4::int) AVLTree))) \<and>
   avl_erase 9 (avl_insert (4::int) AVLTree) = avl_insert 4 AVLTree"
proof -
  have h: "tree_inv (avl_insert (4::int) AVLTree)" "9 \<notin> set (inorder (root (avl_insert (4::int) AVLTree)))"
    by (simp_all add: AVLTree_def tree_inv_def bst_def avl_insert_eq new_node_def balance_step_def)
  show ?thesis using h avl_erase_absent_noop [OF h] by simp
qed

end
