(* ===== verification/AVL_Query.thy ===== *)
theory AVL_Query
  imports AVL_Insert
begin

text \<open>
  The read-only queries of \<open>AVLTree\<close> in \<open>src/onefile.cpp\<close>: \<open>find\<close>,
  \<open>upper_bound\<close>, \<open>lower_bound\<close>, \<open>find_min\<close>, \<open>find_max\<close> and \<open>operator[]\<close>.
  Each is a loop down one path of the tree; each loop is a function on the subtree it
  stands at, with the code's accumulator (\<open>idx\<close>) as an argument. The lemmas relate each
  walk to the in-order list of the tree: ranks are counts of smaller elements, \<open>at\<close> is
  list indexing, and the minimum and maximum are the first and last elements.
\<close>

subsection \<open>The code\<close>

text \<open>\<open>find\<close> (lines 271--290): the loop stops at null or at an equal value; going right it
  adds the left subtree's count plus one; \<open>-1\<close> is the not-found result.\<close>

fun find_walk :: "'a::linorder \<Rightarrow> 'a node \<Rightarrow> int \<Rightarrow> int" where
  "find_walk x Null idx = -1"
| "find_walk x (Node l v _ _ _ r) idx =
     (if v \<noteq> x then
        (if v > x then find_walk x l idx else find_walk x r (idx + (cnt l + 1)))
      else idx + cnt l)"

definition avl_find :: "'a::linorder avl_tree \<Rightarrow> 'a \<Rightarrow> int" where
  "avl_find t x = find_walk x (root t) 0"

text \<open>\<open>upper_bound\<close> (lines 292--307) and \<open>lower_bound\<close> (lines 309--324): the same walk
  without the equality test, with \<open>value > x\<close> and \<open>value >= x\<close> as the test for going left.\<close>

fun upper_walk :: "'a::linorder \<Rightarrow> 'a node \<Rightarrow> int \<Rightarrow> int" where
  "upper_walk x Null idx = idx"
| "upper_walk x (Node l v _ _ _ r) idx =
     (if v > x then upper_walk x l idx else upper_walk x r (idx + (cnt l + 1)))"

definition avl_upper_bound :: "'a::linorder avl_tree \<Rightarrow> 'a \<Rightarrow> int" where
  "avl_upper_bound t x = upper_walk x (root t) 0"

fun lower_walk :: "'a::linorder \<Rightarrow> 'a node \<Rightarrow> int \<Rightarrow> int" where
  "lower_walk x Null idx = idx"
| "lower_walk x (Node l v _ _ _ r) idx =
     (if v \<ge> x then lower_walk x l idx else lower_walk x r (idx + (cnt l + 1)))"

definition avl_lower_bound :: "'a::linorder avl_tree \<Rightarrow> 'a \<Rightarrow> int" where
  "avl_lower_bound t x = lower_walk x (root t) 0"

text \<open>\<open>find_min\<close> and \<open>find_max\<close> (lines 326--344). Both dereference \<open>root\<close>
  unchecked; on an empty tree that is a null dereference, the result \<open>None\<close>.\<close>

fun min_walk :: "'a node \<Rightarrow> 'a option" where
  "min_walk Null = None"
| "min_walk (Node l v _ _ _ _) = (if l \<noteq> Null then min_walk l else Some v)"

definition avl_find_min :: "'a avl_tree \<Rightarrow> 'a option" where
  "avl_find_min t = min_walk (root t)"

fun max_walk :: "'a node \<Rightarrow> 'a option" where
  "max_walk Null = None"
| "max_walk (Node _ v _ _ _ r) = (if r \<noteq> Null then max_walk r else Some v)"

definition avl_find_max :: "'a avl_tree \<Rightarrow> 'a option" where
  "avl_find_max t = max_walk (root t)"

text \<open>\<open>operator[]\<close> (lines 346--366). \<open>idx\<close> is a 64-bit \<open>std::size_t\<close>, and the loop
  compares the 32-bit \<open>int(idx)\<close> with \<open>left\<close>: \<open>int_of_size_t\<close> keeps the low 32 bits and
  reads them in two's complement. \<open>at_walk\<close> carries \<open>int(idx)\<close>: \<open>idx -= left + 1\<close> only
  runs when \<open>0 \<le> left < int(idx)\<close>, where the new \<open>int(idx)\<close> is
  \<open>int(idx) - (left + 1)\<close> without wrap-around. Every step reads \<open>cur->left\<close> of the node it
  moved to, so running off the tree dereferences null: \<open>None\<close>.\<close>

definition int_of_size_t :: "size_t \<Rightarrow> int" where
  "int_of_size_t i = sint (ucast i :: 32 word)"

fun at_walk :: "'a node \<Rightarrow> int \<Rightarrow> 'a option" where
  "at_walk Null idx = None"
| "at_walk (Node l v _ _ _ r) idx =
     (if cnt l \<noteq> idx then
        (if cnt l < idx then at_walk r (idx - (cnt l + 1)) else at_walk l idx)
      else Some v)"

definition avl_at :: "'a avl_tree \<Rightarrow> size_t \<Rightarrow> 'a option" where
  "avl_at t idx = at_walk (root t) (int_of_size_t idx)"

subsection \<open>The walks against the in-order list\<close>

lemma sorted_node_parts:
  "sorted (inorder (Node l v c h s r)) \<Longrightarrow>
   sorted (inorder l @ v # inorder r) \<and> sorted (inorder l) \<and> sorted (inorder r)"
  by (simp add: sorted_mid_iff)

lemma find_walk_correct:
  "aggr_inv t \<Longrightarrow> sorted (inorder t) \<Longrightarrow>
   (if x \<in> set (inorder t)
    then 0 \<le> find_walk x t idx - idx \<and> nat (find_walk x t idx - idx) < length (inorder t) \<and>
         inorder t ! nat (find_walk x t idx - idx) = x
    else find_walk x t idx = -1)"
proof (induction x t idx rule: find_walk.induct)
  case (1 x idx) then show ?case by simp
next
  case (2 x l v c h s r idx)
  have inv: "aggr_inv l" "aggr_inv r" using "2.prems"(1) by simp_all
  have srt: "sorted (inorder l @ v # inorder r)" "sorted (inorder l)" "sorted (inorder r)"
    using sorted_node_parts [OF "2.prems"(2)] by simp_all
  consider (eq) "v = x" | (lt) "v \<noteq> x" "v > x" | (gt) "v \<noteq> x" "\<not> v > x" by blast
  then show ?case
  proof cases
    case eq then show ?thesis using inv by (simp add: aggr_simps nth_append)
  next
    case lt
    then have "x \<in> set (inorder (Node l v c h s r)) \<longleftrightarrow> x \<in> set (inorder l)"
      using srt(1) by (auto simp: sorted_append)
    then show ?thesis using "2.IH"(1) [OF lt inv(1) srt(2)] lt by (auto simp: nth_append)
  next
    case gt
    then have mem: "x \<in> set (inorder (Node l v c h s r)) \<longleftrightarrow> x \<in> set (inorder r)"
      using srt(1) by (auto simp: sorted_append)
    let ?i = "idx + (cnt l + 1)"
    have eq: "find_walk x (Node l v c h s r) idx = find_walk x r ?i" using gt by simp
    note IH = "2.IH"(2) [OF gt inv(2) srt(3)]
    show ?thesis
    proof (cases "x \<in> set (inorder r)")
      case True
      define k where "k = find_walk x r ?i - ?i"
      have k: "0 \<le> k" "nat k < length (inorder r)" "inorder r ! nat k = x"
        using IH True by (simp_all add: k_def)
      have "nat (find_walk x (Node l v c h s r) idx - idx) = length (inorder l) + Suc (nat k)"
        using eq k(1) inv by (simp add: k_def aggr_simps)
      then show ?thesis using mem True k by (simp add: nth_append)
    next
      case False
      then show ?thesis using IH mem eq by simp
    qed
  qed
qed

lemma upper_walk_correct:
  "aggr_inv t \<Longrightarrow> sorted (inorder t) \<Longrightarrow> upper_walk x t idx = idx + int (length (filter (\<lambda>y. y \<le> x) (inorder t)))"
proof (induction x t idx rule: upper_walk.induct)
  case (1 x idx) then show ?case by simp
next
  case (2 x l v c h s r idx)
  have inv: "aggr_inv l" "aggr_inv r" using "2.prems"(1) by simp_all
  have srt: "sorted (inorder l @ v # inorder r)" "sorted (inorder l)" "sorted (inorder r)"
    using sorted_node_parts [OF "2.prems"(2)] by simp_all
  show ?case
  proof (cases "v > x")
    case True then show ?thesis using "2.IH"(1) inv srt by (simp add: filter_le_none)
  next
    case False
    then have "v \<le> x" by simp
    then show ?thesis using "2.IH"(2) False inv srt by (simp add: filter_le_all aggr_simps)
  qed
qed

lemma lower_walk_correct:
  "aggr_inv t \<Longrightarrow> sorted (inorder t) \<Longrightarrow> lower_walk x t idx = idx + int (length (filter (\<lambda>y. y < x) (inorder t)))"
proof (induction x t idx rule: lower_walk.induct)
  case (1 x idx) then show ?case by simp
next
  case (2 x l v c h s r idx)
  have inv: "aggr_inv l" "aggr_inv r" using "2.prems"(1) by simp_all
  have srt: "sorted (inorder l @ v # inorder r)" "sorted (inorder l)" "sorted (inorder r)"
    using sorted_node_parts [OF "2.prems"(2)] by simp_all
  show ?case
  proof (cases "v \<ge> x")
    case True then show ?thesis using "2.IH"(1) inv srt by (simp add: filter_less_none)
  next
    case False
    then have "v < x" by simp
    then show ?thesis using "2.IH"(2) False inv srt by (simp add: filter_less_all aggr_simps)
  qed
qed

lemma at_walk_correct:
  "aggr_inv t \<Longrightarrow> 0 \<le> i \<Longrightarrow>
   at_walk t i = (if nat i < length (inorder t) then Some (inorder t ! nat i) else None)"
proof (induction t i rule: at_walk.induct)
  case (1 idx) then show ?case by simp
next
  case (2 l v c h s r idx)
  have inv: "aggr_inv l" "aggr_inv r" using "2.prems"(1) by simp_all
  consider (eq) "cnt l = idx" | (right) "cnt l \<noteq> idx" "cnt l < idx" | (left) "cnt l \<noteq> idx" "\<not> cnt l < idx"
    by blast
  then show ?case
  proof cases
    case eq then show ?thesis using inv by (auto simp: aggr_simps nth_append)
  next
    case right
    then have "nat idx = Suc (length (inorder l) + nat (idx - (cnt l + 1)))"
      using inv by (simp add: aggr_simps)
    then show ?thesis using "2.IH"(1) [OF right inv(2)] right inv
      by (auto simp: aggr_simps nth_append)
  next
    case left
    then show ?thesis using "2.IH"(2) [OF left inv(1)] "2.prems"(2) inv
      by (auto simp: aggr_simps nth_append)
  qed
qed

lemma min_walk_correct: "min_walk t = (if t = Null then None else Some (hd (inorder t)))"
  by (induction t rule: min_walk.induct) auto

lemma max_walk_correct: "max_walk t = (if t = Null then None else Some (last (inorder t)))"
  by (induction t rule: max_walk.induct) auto

text \<open>The walks read through the public entry points, on a tree satisfying the invariant.\<close>

lemma at_walk_negative: "aggr_inv t \<Longrightarrow> i < 0 \<Longrightarrow> at_walk t i = None"
proof (induction t i rule: at_walk.induct)
  case (2 l v c h s r idx)
  then have "0 \<le> cnt l" by (simp add: aggr_simps)
  then show ?case using 2 by simp
qed simp

lemma avl_at_inorder:
  "tree_inv t \<Longrightarrow> unat i < 2 ^ 31 \<Longrightarrow>
   avl_at t i = (if unat i < length (inorder (root t)) then Some (inorder (root t) ! unat i) else None)"
  using at_walk_correct [of "root t" "int (unat i)"]
  by (simp add: avl_at_def int_of_size_t_def sint_ucast_small tree_inv_def)

lemma avl_at_high_index:
  "tree_inv t \<Longrightarrow> 2 ^ 31 \<le> unat i \<Longrightarrow> unat i < 2 ^ 32 \<Longrightarrow> avl_at t i = None"
  by (simp add: avl_at_def int_of_size_t_def sint_ucast_neg at_walk_negative tree_inv_def)

lemma avl_lower_bound_inorder:
  "tree_inv t \<Longrightarrow> avl_lower_bound t x = int (length (filter (\<lambda>y. y < x) (inorder (root t))))"
  using lower_walk_correct [of "root t" x 0] by (simp add: avl_lower_bound_def tree_inv_def bst_def)

lemma avl_find_inorder:
  "tree_inv t \<Longrightarrow> x \<in> set (inorder (root t)) \<Longrightarrow>
   0 \<le> avl_find t x \<and> nat (avl_find t x) < length (inorder (root t)) \<and>
   inorder (root t) ! nat (avl_find t x) = x"
  using find_walk_correct [of "root t" x 0] by (simp add: avl_find_def tree_inv_def bst_def)

lemma avl_size_length: "tree_inv t \<Longrightarrow> avl_size t = int (length (inorder (root t)))"
  by (simp add: avl_size_def tree_inv_def aggr_simps)

subsection \<open>Properties of the queries\<close>

text \<open>
  C12. \<open>find\<close> returns a rank: on a tree satisfying the invariant, if \<open>x\<close> occurs the result
  is a valid 0-based position of the in-order sequence holding \<open>x\<close>, and otherwise it
  is the sentinel \<open>-1\<close>.
\<close>

theorem avl_find_rank:
  "tree_inv t \<Longrightarrow>
   (x \<in> set (inorder (root t)) \<longrightarrow>
      0 \<le> avl_find t x \<and> nat (avl_find t x) < length (inorder (root t)) \<and>
      inorder (root t) ! nat (avl_find t x) = x) \<and>
   (x \<notin> set (inorder (root t)) \<longrightarrow> avl_find t x = -1)"
  using find_walk_correct [of "root t" x 0] by (auto simp: avl_find_def tree_inv_def bst_def)

theorem avl_find_rank_witness:
  "0 \<le> avl_find (avl_insert (1::int) (avl_insert 3 (avl_insert 5 AVLTree))) 3 \<and>
   [1, 3, 5] ! nat (avl_find (avl_insert (1::int) (avl_insert 3 (avl_insert 5 AVLTree))) 3) = (3::int) \<and>
   avl_find (avl_insert (1::int) (avl_insert 3 (avl_insert 5 AVLTree))) 4 = -1"
  using avl_find_rank [OF tree_inv_small_example, of 3] avl_find_rank [OF tree_inv_small_example, of 4]
  by (simp add: inorder_small_example)

text \<open>
  C13. \<open>lower_bound(x)\<close> is the number of stored values strictly less than \<open>x\<close>.
\<close>

theorem avl_lower_bound_count:
  "tree_inv t \<Longrightarrow> avl_lower_bound t x = int (length (filter (\<lambda>y. y < x) (inorder (root t))))"
  by (rule avl_lower_bound_inorder)

theorem avl_lower_bound_count_witness:
  "avl_lower_bound (avl_insert (1::int) (avl_insert 3 (avl_insert 5 AVLTree))) 4 = 2"
  using avl_lower_bound_count [OF tree_inv_small_example, of 4] by (simp add: inorder_small_example)

text \<open>
  C14. \<open>upper_bound(x)\<close> is the number of stored values less than or equal to \<open>x\<close>.
\<close>

theorem avl_upper_bound_count:
  "tree_inv t \<Longrightarrow> avl_upper_bound t x = int (length (filter (\<lambda>y. y \<le> x) (inorder (root t))))"
  using upper_walk_correct [of "root t" x 0] by (simp add: avl_upper_bound_def tree_inv_def bst_def)

theorem avl_upper_bound_count_witness:
  "avl_upper_bound (avl_insert (1::int) (avl_insert 3 (avl_insert 5 AVLTree))) 3 = 2"
  using avl_upper_bound_count [OF tree_inv_small_example, of 3] by (simp add: inorder_small_example)

text \<open>
  C15. \<open>operator[]\<close> is indexing into the sorted sequence: for an index below
  \<open>2^31\<close> (where \<open>int(idx)\<close> is the index itself) and below \<open>size()\<close> it returns the
  element at that 0-based position; at or beyond \<open>size()\<close> the walk dereferences null
  (the result \<open>None\<close>) instead of failing in a defined way.
\<close>

theorem avl_at_index:
  "tree_inv t \<Longrightarrow> unat i < 2 ^ 31 \<Longrightarrow>
   avl_at t i = (if int (unat i) < avl_size t then Some (inorder (root t) ! unat i) else None)"
  by (simp add: avl_at_inorder avl_size_length uint_less_int_iff)

theorem avl_at_index_witness:
  "avl_at (avl_insert (1::int) (avl_insert 3 (avl_insert 5 AVLTree))) 2 = Some 5 \<and>
   avl_at (avl_insert (1::int) (avl_insert 3 (avl_insert 5 AVLTree))) 3 = None"
proof -
  have "avl_size (avl_insert (1::int) (avl_insert 3 (avl_insert 5 AVLTree))) = 3"
    using tree_inv_small_example inorder_small_example by (simp add: tree_inv_def avl_size_def aggr_simps)
  then show ?thesis
    using avl_at_index [OF tree_inv_small_example, of 2] avl_at_index [OF tree_inv_small_example, of 3]
    by (simp add: inorder_small_example)
qed

text \<open>
  C16. \<open>find_min\<close> and \<open>find_max\<close> return the least and the greatest stored value on a
  non-empty tree and dereference null (\<open>None\<close>) on an empty one.
\<close>

theorem avl_find_min_max:
  "tree_inv t \<Longrightarrow>
   avl_find_min t = (if avl_empty t then None else Some (Min (set (inorder (root t))))) \<and>
   avl_find_max t = (if avl_empty t then None else Some (Max (set (inorder (root t)))))"
proof -
  assume inv: "tree_inv t"
  then have s: "sorted (inorder (root t))" and e: "avl_empty t \<longleftrightarrow> root t = Null"
    by (auto simp: tree_inv_def bst_def avl_empty_def aggr_simps)
  have "root t \<noteq> Null \<Longrightarrow> hd (inorder (root t)) = Min (set (inorder (root t)))"
    using s by (simp add: sorted_hd_is_Min)
  moreover have "root t \<noteq> Null \<Longrightarrow> last (inorder (root t)) = Max (set (inorder (root t)))"
    using s by (simp add: sorted_last_is_Max)
  ultimately show ?thesis using e
    by (simp add: avl_find_min_def avl_find_max_def min_walk_correct max_walk_correct)
qed

theorem avl_find_min_max_witness:
  "avl_find_min (avl_insert (1::int) (avl_insert 3 (avl_insert 5 AVLTree))) = Some 1 \<and>
   avl_find_max (avl_insert (1::int) (avl_insert 3 (avl_insert 5 AVLTree))) = Some 5"
proof -
  have "\<not> avl_empty (avl_insert (1::int) (avl_insert 3 (avl_insert 5 AVLTree)))"
    using tree_inv_small_example inorder_small_example
    by (simp add: tree_inv_def avl_empty_def aggr_simps)
  then show ?thesis using avl_find_min_max [OF tree_inv_small_example] by (simp add: inorder_small_example)
qed

text \<open>
  C25. \<open>operator[]\<close> reads its 64-bit index through a 32-bit \<open>int\<close>: an index of
  \<open>2^32\<close> or more addresses the same element as the index modulo \<open>2^32\<close>, and an index in
  \<open>[2^31, 2^32)\<close> becomes negative and runs off the tree (\<open>None\<close>), whatever the size.
\<close>

theorem avl_at_size_t_cast:
  "tree_inv t \<Longrightarrow>
   avl_at t (i + 2 ^ 32) = avl_at t i \<and> (2 ^ 31 \<le> unat i \<and> unat i < 2 ^ 32 \<longrightarrow> avl_at t i = None)"
proof -
  have "avl_at t (i + 2 ^ 32) = avl_at t i"
    unfolding avl_at_def int_of_size_t_def sint_ucast_wrap by (rule refl)
  moreover assume "tree_inv t"
  ultimately show ?thesis by (simp add: avl_at_high_index)
qed

theorem avl_at_size_t_cast_witness:
  "avl_at (avl_insert (1::int) (avl_insert 3 (avl_insert 5 AVLTree))) (2 + 2 ^ 32) = Some 5 \<and>
   avl_at (avl_insert (1::int) (avl_insert 3 (avl_insert 5 AVLTree))) (2 ^ 31) = None"
proof -
  have "avl_at (avl_insert (1::int) (avl_insert 3 (avl_insert 5 AVLTree))) 2 = Some 5"
    using avl_at_inorder [OF tree_inv_small_example, of 2] by (simp add: inorder_small_example)
  then show ?thesis
    using avl_at_size_t_cast [OF tree_inv_small_example, of 2]
      avl_at_size_t_cast [OF tree_inv_small_example, of "2 ^ 31"]
    by simp
qed

end
