(* ===== verification/AVL_RangeSum.thy ===== *)
theory AVL_RangeSum
  imports AVL_Insert
begin

text \<open>
  \<open>AVLTree<T>::sum(l, r)\<close> (\<open>src/onefile.cpp\<close> lines 368--452), the range-sum query
  added in 2024. It searches for the split node, the first node on the search path with a
  value in \<open>[l, r]\<close>, then walks two paths below it: towards \<open>l\<close> adding each landed
  node that is \<open>>= l\<close> with the cached sum of its right subtree, and towards \<open>r\<close>
  symmetrically. The value type needs a total order and a commutative monoid for \<open>+\<close>
  with \<open>T()\<close> as zero (\<open>long long\<close> in the driver, whose addition wraps modulo
  \<open>2^64\<close> and is commutative and associative).
\<close>

abbreviation sum_ge :: "'a::{linorder,comm_monoid_add} \<Rightarrow> 'a node \<Rightarrow> 'a" where
  "sum_ge l t \<equiv> sum_list (filter (\<lambda>y. l \<le> y) (inorder t))"

abbreviation sum_le :: "'a::{linorder,comm_monoid_add} \<Rightarrow> 'a node \<Rightarrow> 'a" where
  "sum_le r t \<equiv> sum_list (filter (\<lambda>y. y \<le> r) (inorder t))"

abbreviation in_range :: "'a::linorder \<Rightarrow> 'a \<Rightarrow> 'a \<Rightarrow> bool" where
  "in_range l r y \<equiv> l \<le> y \<and> y \<le> r"

subsection \<open>The code\<close>

text \<open>The first loop: down from the root to the first node whose value is in
  \<open>[l, r]\<close>; when the child it needs is null it returns the zero \<open>res\<close> (\<open>None\<close> here).
  Inside the loop the code's second test \<open>subtree->value > r\<close> always holds when the first
  fails, so it is the \<open>else\<close> branch.\<close>

fun split_walk :: "'a::linorder \<Rightarrow> 'a \<Rightarrow> 'a node \<Rightarrow> 'a node option" where
  "split_walk l r Null = None"
| "split_walk l r (Node a v c h s b) =
     (if v < l \<or> v > r then
        (if v < l then (if b = Null then None else split_walk l r b)
         else (if a = Null then None else split_walk l r a))
      else Some (Node a v c h s b))"

text \<open>What the lower-boundary walk adds on landing on a node:
  \<open>res += value; if (right != nullptr) res += right->sum;\<close> when \<open>value >= l\<close>.\<close>

definition left_add :: "'a::{linorder,plus} \<Rightarrow> 'a node \<Rightarrow> 'a \<Rightarrow> 'a" where
  "left_add l n res =
     (if node_value n \<ge> l then
        (if right n \<noteq> Null then res + node_value n + node_sum (right n) else res + node_value n)
      else res)"

definition right_add :: "'a::{linorder,plus} \<Rightarrow> 'a node \<Rightarrow> 'a \<Rightarrow> 'a" where
  "right_add r n res =
     (if node_value n \<le> r then
        (if left n \<noteq> Null then res + node_value n + node_sum (left n) else res + node_value n)
      else res)"

text \<open>The second loop (lines 401--424): while the current node has a child, step to the
  left child when its value is \<open>>= l\<close> and to the right one otherwise, \<open>break\<close> when that
  child is null, and add on landing. The third loop (lines 426--449) mirrors it at \<open>r\<close>.\<close>

fun left_walk :: "'a::{linorder,plus} \<Rightarrow> 'a node \<Rightarrow> 'a \<Rightarrow> 'a" where
  "left_walk l Null res = res"
| "left_walk l (Node a v c h s b) res =
     (if a \<noteq> Null \<or> b \<noteq> Null then
        (if v \<ge> l then (if a \<noteq> Null then left_walk l a (left_add l a res) else res)
         else (if b \<noteq> Null then left_walk l b (left_add l b res) else res))
      else res)"

fun right_walk :: "'a::{linorder,plus} \<Rightarrow> 'a node \<Rightarrow> 'a \<Rightarrow> 'a" where
  "right_walk r Null res = res"
| "right_walk r (Node a v c h s b) res =
     (if a \<noteq> Null \<or> b \<noteq> Null then
        (if v \<le> r then (if b \<noteq> Null then right_walk r b (right_add r b res) else res)
         else (if a \<noteq> Null then right_walk r a (right_add r a res) else res))
      else res)"

text \<open>\<open>sum(l, r)\<close>: \<open>assert(l <= r)\<close> aborts (\<open>None\<close>); an empty tree or no
  split node gives \<open>T()\<close>; otherwise the split node's value, then the two walks.\<close>

definition avl_sum :: "'a::{linorder,comm_monoid_add} avl_tree \<Rightarrow> 'a \<Rightarrow> 'a \<Rightarrow> 'a option" where
  "avl_sum t l r =
     (if \<not> l \<le> r then None
      else if root t = Null then Some 0
      else case split_walk l r (root t) of
             None \<Rightarrow> Some 0
           | Some sn \<Rightarrow> (let res = 0 + node_value sn;
                            res = left_walk l sn res
                        in Some (right_walk r sn res)))"

subsection \<open>Correctness of the boundary walks\<close>

lemma node_sum_aggr: "aggr_inv (t :: 'a::comm_monoid_add node) \<Longrightarrow> t \<noteq> Null \<Longrightarrow> node_sum t = sum_list (inorder t)"
  by (cases t) (auto simp: sm_aggr ac_simps)

lemma left_add_sum:
  assumes "aggr_inv n" "sorted (inorder n)" "n \<noteq> Null"
  shows "left_add l n res + (if node_value n \<ge> l then sum_ge l (left n) else sum_ge l (right n)) =
         res + sum_ge (l :: 'a::{linorder,comm_monoid_add}) n"
proof -
  obtain a v c h s b where n: "n = Node a v c h s b" using assms(3) by (cases n) auto
  have srt: "sorted (inorder a @ v # inorder b)" using assms(2) n by simp
  show ?thesis
  proof (cases "v \<ge> l")
    case True
    then have "filter (\<lambda>y. l \<le> y) (inorder b) = inorder b"
      using srt by (auto simp: sorted_append filter_id_conv intro: order_trans)
    then show ?thesis using True assms(1) n
      by (cases "b = Null") (simp_all add: left_add_def node_sum_aggr ac_simps)
  next
    case False
    then have "filter (\<lambda>y. l \<le> y) (inorder a) = []"
      using srt by (auto simp: sorted_append filter_empty_conv dest: order_trans)
    then show ?thesis using False n by (simp add: left_add_def)
  qed
qed


lemma right_add_sum:
  assumes "aggr_inv n" "sorted (inorder n)" "n \<noteq> Null"
  shows "right_add r n res + (if node_value n \<le> r then sum_le r (right n) else sum_le r (left n)) =
         res + sum_le (r :: 'a::{linorder,comm_monoid_add}) n"
proof -
  obtain a v c h s b where n: "n = Node a v c h s b" using assms(3) by (cases n) auto
  have srt: "sorted (inorder a @ v # inorder b)" using assms(2) n by simp
  show ?thesis
  proof (cases "v \<le> r")
    case True
    then have "filter (\<lambda>y. y \<le> r) (inorder a) = inorder a"
      using srt by (auto simp: sorted_append filter_id_conv intro: order_trans)
    then show ?thesis using True assms(1) n
      by (cases "a = Null") (simp_all add: right_add_def node_sum_aggr ac_simps)
  next
    case False
    then have "filter (\<lambda>y. y \<le> r) (inorder b) = []"
      using srt by (auto simp: sorted_append filter_empty_conv dest: order_trans)
    then show ?thesis using False n by (simp add: right_add_def)
  qed
qed

text \<open>The lower-boundary walk from a node adds every element \<open>\<ge> l\<close> of the subtree it
  descends into first: the left one when the node's value is \<open>\<ge> l\<close>, else the right one.\<close>

lemma left_walk_sum:
  "aggr_inv t \<Longrightarrow> sorted (inorder t) \<Longrightarrow> t \<noteq> Null \<Longrightarrow>
   left_walk l t res = res + (if node_value t \<ge> l then sum_ge l (left t) else sum_ge (l :: 'a::{linorder,comm_monoid_add}) (right t))"
proof (induction l t res rule: left_walk.induct)
  case (1 l res) then show ?case by simp
next
  case (2 l a v c h s b res)
  have inv: "aggr_inv a" "aggr_inv b" "sorted (inorder a)" "sorted (inorder b)"
    using "2.prems" by (simp_all add: sorted_mid_iff)
  show ?case
  proof (cases "a \<noteq> Null \<or> b \<noteq> Null")
    case nonleaf: True
    show ?thesis
    proof (cases "v \<ge> l")
      case True
      then show ?thesis using nonleaf "2.IH"(1) [OF nonleaf True _ inv(1,3)] left_add_sum [OF inv(1,3)]
        by (cases "a = Null") (simp_all add: add.assoc)
    next
      case False
      then show ?thesis using nonleaf "2.IH"(2) [OF nonleaf False _ inv(2,4)] left_add_sum [OF inv(2,4)]
        by (cases "b = Null") (simp_all add: add.assoc)
    qed
  next
    case False then show ?thesis by simp
  qed
qed

lemma right_walk_sum:
  "aggr_inv t \<Longrightarrow> sorted (inorder t) \<Longrightarrow> t \<noteq> Null \<Longrightarrow>
   right_walk r t res = res + (if node_value t \<le> r then sum_le r (right t) else sum_le (r :: 'a::{linorder,comm_monoid_add}) (left t))"
proof (induction r t res rule: right_walk.induct)
  case (1 r res) then show ?case by simp
next
  case (2 r a v c h s b res)
  have inv: "aggr_inv a" "aggr_inv b" "sorted (inorder a)" "sorted (inorder b)"
    using "2.prems" by (simp_all add: sorted_mid_iff)
  show ?case
  proof (cases "a \<noteq> Null \<or> b \<noteq> Null")
    case nonleaf: True
    show ?thesis
    proof (cases "v \<le> r")
      case True
      then show ?thesis using nonleaf "2.IH"(1) [OF nonleaf True _ inv(2,4)] right_add_sum [OF inv(2,4)]
        by (cases "b = Null") (simp_all add: add.assoc)
    next
      case False
      then show ?thesis using nonleaf "2.IH"(2) [OF nonleaf False _ inv(1,3)] right_add_sum [OF inv(1,3)]
        by (cases "a = Null") (simp_all add: add.assoc)
    qed
  next
    case False then show ?thesis by simp
  qed
qed


subsection \<open>The split node and the whole query\<close>

lemma split_walk_None:
  "sorted (inorder t) \<Longrightarrow> split_walk l r t = None \<Longrightarrow> filter (in_range l r) (inorder t) = []"
proof (induction l r t rule: split_walk.induct)
  case (1 l r) then show ?case by simp
next
  case (2 l r a v c h s b)
  have srt: "sorted (inorder a @ v # inorder b)" "sorted (inorder a)" "sorted (inorder b)"
    using "2.prems"(1) by (simp_all add: sorted_mid_iff)
  then show ?case using "2.prems"(2) "2.IH"
    by (auto simp: sorted_append filter_empty_conv split: if_splits dest: order_trans)
qed

lemma split_walk_Some:
  "aggr_inv t \<Longrightarrow> sorted (inorder t) \<Longrightarrow> split_walk l r t = Some sn \<Longrightarrow>
   filter (in_range l r) (inorder t) = filter (in_range l r) (inorder sn) \<and>
   sn \<noteq> Null \<and> l \<le> node_value sn \<and> node_value sn \<le> r \<and> aggr_inv sn \<and> sorted (inorder sn)"
proof (induction l r t rule: split_walk.induct)
  case (1 l r) then show ?case by simp
next
  case (2 l r a v c h s b)
  have srt: "sorted (inorder a @ v # inorder b)" "sorted (inorder a)" "sorted (inorder b)"
    using "2.prems"(2) by (simp_all add: sorted_mid_iff)
  have inv: "aggr_inv a" "aggr_inv b" using "2.prems"(1) by simp_all
  consider (below) "v < l" | (above) "\<not> v < l" "v > r" | (inside) "l \<le> v" "v \<le> r" by fastforce
  then show ?case
  proof cases
    case below
    then have "filter (in_range l r) (inorder a) = []"
      using srt(1) by (auto simp: sorted_append filter_empty_conv dest: order_trans)
    then show ?thesis using below "2.prems"(3) "2.IH"(1) inv srt by (auto split: if_splits)
  next
    case above
    then have "filter (in_range l r) (inorder b) = []"
      using srt(1) by (auto simp: sorted_append filter_empty_conv dest: order_trans)
    then show ?thesis using above "2.prems" "2.IH"(2) inv srt by (auto split: if_splits)
  next
    case inside
    then have "\<not> (v < l \<or> v > r)" by (simp add: not_less)
    then have "sn = Node a v c h s b" using "2.prems"(3) by simp
    then show ?thesis using inside "2.prems"(1,2) by simp
  qed
qed

lemma avl_sum_split_node:
  assumes "aggr_inv sn" "sorted (inorder sn)" "sn \<noteq> Null" "l \<le> node_value sn" "node_value sn \<le> r"
  shows "right_walk r sn (left_walk l sn (0 + node_value sn)) =
         sum_list (filter (in_range l r) (inorder (sn :: 'a::{linorder,comm_monoid_add} node)))"
proof -
  obtain a v c h s b where sn: "sn = Node a v c h s b" using assms(3) by (cases sn) auto
  have srt: "sorted (inorder a @ v # inorder b)" using assms(2) sn by simp
  have "filter (in_range l r) (inorder a) = filter (\<lambda>y. l \<le> y) (inorder a)"
    using srt assms(5) sn by (auto simp: sorted_append intro!: filter_cong dest: order_trans)
  moreover have "filter (in_range l r) (inorder b) = filter (\<lambda>y. y \<le> r) (inorder b)"
    using srt assms(4) sn by (auto simp: sorted_append intro!: filter_cong dest: order_trans)
  ultimately show ?thesis using assms sn left_walk_sum [OF assms(1-3)] right_walk_sum [OF assms(1-3)]
    by (simp add: ac_simps)
qed


lemma avl_sum_filter:
  assumes "aggr_inv (root t)" "sorted (inorder (root t))" "l \<le> r"
  shows "avl_sum t l r = Some (sum_list (filter (in_range l r) (inorder (root t))))"
proof (cases "split_walk l r (root t)")
  case None
  then show ?thesis using assms split_walk_None [OF assms(2) None] by (simp add: avl_sum_def)
next
  case (Some sn)
  note sp = split_walk_Some [OF assms(1,2) Some]
  have "root t \<noteq> Null" using Some by auto
  then show ?thesis using assms Some sp avl_sum_split_node [of sn l r] by (simp add: avl_sum_def)
qed

lemma avl_sum_assert: "\<not> l \<le> r \<Longrightarrow> avl_sum t l r = None"
  by (simp add: avl_sum_def)

subsection \<open>Property of \<open>sum\<close>\<close>

text \<open>
  C6. The range-sum query is correct: on a tree satisfying the invariant and for
  \<open>l \<le> r\<close>, \<open>sum(l, r)\<close> returns the sum of all stored values in the closed interval
  \<open>[l, r]\<close> (duplicates counted, zero for an empty tree or an empty intersection); for
  \<open>l > r\<close> the \<open>assert\<close> aborts.
\<close>

theorem avl_sum_correct:
  "tree_inv t \<Longrightarrow>
   avl_sum t l r = (if l \<le> r then Some (sum_list (filter (\<lambda>y. l \<le> y \<and> y \<le> r) (inorder (root t)))) else None)"
  using avl_sum_filter [of t l r] by (simp add: avl_sum_def tree_inv_def bst_def)

theorem avl_sum_correct_witness:
  "avl_sum (avl_insert (1::int) (avl_insert 3 (avl_insert 5 AVLTree))) 2 5 = Some 8 \<and>
   avl_sum (avl_insert (1::int) (avl_insert 3 (avl_insert 5 AVLTree))) 5 2 = None"
  using avl_sum_correct [OF tree_inv_small_example, of 2 5] avl_sum_correct [OF tree_inv_small_example, of 5 2]
  by (simp add: inorder_small_example)

end
