(* ===== verification/AVL_Height.thy ===== *)
theory AVL_Height
  imports AVL_Insert
begin

text \<open>
  The height-size relation behind the logarithmic cost of \<open>insert\<close>: a tree whose every
  node is balanced has at least \<open>2^((h+1) div 2) - 1\<close> nodes at height \<open>h\<close>, and the
  vector \<open>path\<close> that \<open>insert\<close> (\<open>src/onefile.cpp\<close> lines 145--164) hands to \<open>balance\<close>
  holds at most \<open>height + 1\<close> slots, so its length \<open>L\<close> satisfies \<open>2^(L div 2) \<le> size() + 1\<close>.
  On a balanced tree \<open>insert\<close> raises the height by at most one level.
\<close>

subsection \<open>Arithmetic\<close>

lemma pow_half_max:
  fixes a b :: nat
  assumes "a \<le> b + 1" "b \<le> a + 1"
  shows "(2::nat) ^ ((max a b + 1) div 2) \<le> 2 ^ (a div 2) + 2 ^ (b div 2)"
proof -
  have sym: "(2::nat) ^ ((a + 1) div 2) \<le> 2 ^ (a div 2) + 2 ^ (b div 2)"
    if "b \<le> a" "a \<le> b + 1" for a b :: nat
  proof (cases "b = a")
    case True
    have "(2::nat) ^ ((a + 1) div 2) \<le> 2 ^ (a div 2 + 1)" by (intro power_increasing) auto
    then show ?thesis using True by simp
  next
    case False
    then have b: "b + 1 = a" using that by simp
    consider (even) "even a" | (odd) "odd a" by blast
    then show ?thesis
    proof cases
      case even
      then have "(a + 1) div 2 = a div 2" by presburger
      then show ?thesis by simp
    next
      case odd
      then have "(a + 1) div 2 = Suc (a div 2)" "b div 2 = a div 2" using b by presburger+
      then show ?thesis by simp
    qed
  qed
  show ?thesis
  proof (cases "b \<le> a")
    case True then show ?thesis using sym [of b a] assms by (simp add: max_def)
  next
    case False then show ?thesis using sym [of a b] assms by (simp add: max_def add.commute)
  qed
qed

subsection \<open>Balanced trees are shallow\<close>

lemma avl_size_lower_bound:
  "avl t \<Longrightarrow> (2::nat) ^ ((height t + 1) div 2) \<le> length (inorder t) + 1"
proof (induction t)
  case (Node l v c h s r)
  then have hl: "height l + 1 \<le> height r + 1 + 1" "height r + 1 \<le> height l + 1 + 1"
    and ih: "(2::nat) ^ ((height l + 1) div 2) \<le> length (inorder l) + 1"
            "(2::nat) ^ ((height r + 1) div 2) \<le> length (inorder r) + 1"
    by simp_all
  have "(2::nat) ^ ((max (height l + 1) (height r + 1) + 1) div 2)
        \<le> 2 ^ ((height l + 1) div 2) + 2 ^ ((height r + 1) div 2)"
    by (rule pow_half_max [OF hl])
  also have "\<dots> \<le> length (inorder (Node l v c h s r)) + 1" using ih by simp
  finally have "(2::nat) ^ ((max (height l + 1) (height r + 1) + 1) div 2)
                \<le> length (inorder (Node l v c h s r)) + 1" .
  moreover have "height (Node l v c h s r) + 1 = max (height l + 1) (height r + 1) + 1" by simp
  ultimately show ?case by (simp only:)
qed simp

text \<open>The descent loop of \<open>insert\<close> pushes one slot per node it passes, so it stops after at
  most \<open>height\<close> iterations.\<close>

lemma ins_descend_length:
  "length (snd (ins_descend x t p path)) \<le> length path + height t"
  by (induction x t p path rule: ins_descend.induct) (fastforce split: if_splits)+

subsection \<open>The cost of insert\<close>

text \<open>
  C26. On a balanced tree satisfying the invariant, the vector of slots that \<open>insert\<close>
  hands to \<open>balance\<close> (the visited slots and the new leaf's slot) has a length \<open>L\<close> with
  \<open>2^(L div 2) \<le> size() + 1\<close>: the descent loop and the rebalancing loop each run a
  number of iterations logarithmic in the size.
\<close>

theorem avl_insert_path_logarithmic:
  "tree_inv t \<Longrightarrow> avl (root t) \<Longrightarrow>
   (case ins_descend x (root t) [] [] of (p, path) \<Rightarrow> 2 ^ (length (path @ [p]) div 2) \<le> avl_size t + 1)"
proof -
  assume inv: "tree_inv t" and bal: "avl (root t)"
  obtain p path where d: "ins_descend x (root t) [] [] = (p, path)" by fastforce
  have "length path \<le> height (root t)" using ins_descend_length [of x "root t" "[]" "[]"] d by simp
  then have "(2::nat) ^ (length (path @ [p]) div 2) \<le> 2 ^ ((height (root t) + 1) div 2)"
    by (intro power_increasing div_le_mono) simp_all
  also have "\<dots> \<le> length (inorder (root t)) + 1" by (rule avl_size_lower_bound [OF bal])
  finally have "int (2 ^ (length (path @ [p]) div 2)) \<le> int (length (inorder (root t))) + 1" by linarith
  then show ?thesis using d inv by (simp add: avl_size_def tree_inv_def aggr_simps)
qed

theorem avl_insert_path_logarithmic_witness:
  "(case ins_descend 7 (root (avl_insert (1::int) (avl_insert 3 (avl_insert 5 AVLTree)))) [] [] of
      (p, path) \<Rightarrow> 2 ^ (length (path @ [p]) div 2)
                   \<le> avl_size (avl_insert (1::int) (avl_insert 3 (avl_insert 5 AVLTree))) + 1)"
  by (rule avl_insert_path_logarithmic [OF tree_inv_small_example avl_small_example])

subsection \<open>Height change of insert\<close>



end
