(* ===== verification/AVL_Driver.thy ===== *)
theory AVL_Driver
  imports AVL_Query
begin

text \<open>
  The code of \<open>src/onefile.cpp\<close> around the data structure: the destructor (lines
  116--119), \<open>display\<close> (lines 454--490), which prints the tree sideways on \<open>std::cerr\<close>,
  and the demonstration driver \<open>main\<close> (lines 493--507). \<open>display\<close> is modelled as the list
  of lines it prints, each line kept as its parts (depth, the marker chosen by
  \<open>state\<close>, value and cached sum), and as the characters of those lines
  (\<open>avl_display_text\<close>), with the printing of values and the bytes of the wide markers as
  parameters; \<open>main\<close> takes the values \<open>rand()\<close> returns as a parameter.
\<close>

subsection \<open>Destructor\<close>

definition avl_destroy :: "'a avl_tree \<Rightarrow> 'a avl_tree" where
  "avl_destroy t = avl_clear t"

subsection \<open>display\<close>

text \<open>\<open>state\<close>: 0 for the root, 1 for a left child (marker \<open>\<lbrace>---\<close>), 2 for a right child.\<close>

datatype dstate = AtRoot | LeftSide | RightSide

datatype 'a disp_line = Newline | EmptyMsg | Entry nat dstate 'a 'a

text \<open>\<open>display(cur, depth, state)\<close>: the left subtree one level deeper, the line of
  \<open>cur\<close> (indentation by \<open>depth\<close>, the marker of \<open>state\<close>, \<open>[value] - (sum)\<close>), then the
  right subtree. Callers never pass null.\<close>

fun display_rec :: "'a node \<Rightarrow> nat \<Rightarrow> dstate \<Rightarrow> 'a disp_line list" where
  "display_rec Null depth st = []"
| "display_rec (Node l v c h s r) depth st =
     (if l \<noteq> Null then display_rec l (depth + 1) LeftSide else []) @
     [Entry depth st v s] @
     (if r \<noteq> Null then display_rec r (depth + 1) RightSide else [])"

definition avl_display :: "'a avl_tree \<Rightarrow> 'a disp_line list" where
  "avl_display t =
     [Newline] @ (if root t \<noteq> Null then display_rec (root t) 0 AtRoot else [EmptyMsg]) @ [Newline]"

text \<open>The characters of a line. \<open>std::cerr << "     "\<close> once per level of depth, the
  wide marker \<open>std::wcerr << L"..."\<close> for a left or right child, then
  \<open>"[" << value << "] - (" << sum << ")" << std::endl\<close>. How \<open>T\<close> is printed
  (\<open>operator<<\<close>) is the parameter \<open>shw\<close>; the bytes of the two wide markers depend on the
  locale \<open>setlocale(LC_ALL, "")\<close> selects, and are the parameters \<open>ml\<close> and \<open>mr\<close>.\<close>

definition nl :: char where
  "nl = CHR 0x0A"

fun display_line :: "('a \<Rightarrow> string) \<Rightarrow> string \<Rightarrow> string \<Rightarrow> 'a disp_line \<Rightarrow> string" where
  "display_line shw ml mr Newline = [nl]"
| "display_line shw ml mr EmptyMsg = ''Empty''"
| "display_line shw ml mr (Entry d st v s) =
     concat (replicate d ''     '') @
     (case st of AtRoot \<Rightarrow> [] | LeftSide \<Rightarrow> ml | RightSide \<Rightarrow> mr) @
     ''['' @ shw v @ ''] - ('' @ shw s @ '')'' @ [nl]"

definition avl_display_text :: "('a \<Rightarrow> string) \<Rightarrow> string \<Rightarrow> string \<Rightarrow> 'a avl_tree \<Rightarrow> string" where
  "avl_display_text shw ml mr t = concat (map (display_line shw ml mr) (avl_display t))"

text \<open>The printed entries, as (depth, value) pairs.\<close>

fun entries :: "'a disp_line list \<Rightarrow> (nat \<times> 'a) list" where
  "entries [] = []"
| "entries (Entry d st v s # ls) = (d, v) # entries ls"
| "entries (_ # ls) = entries ls"

subsection \<open>main\<close>

text \<open>\<open>for (int i = 0; i < tree.size(); i++) printf("%lld\n", tree[i]);\<close>: the \<open>int\<close> \<open>i\<close>
  converted to \<open>std::size_t\<close>; each printed value is \<open>None\<close> where \<open>tree[i]\<close> would
  dereference null.\<close>

function print_loop :: "'a avl_tree \<Rightarrow> int \<Rightarrow> 'a option list" where
  "print_loop t i = (if i < avl_size t then avl_at t (word_of_int i) # print_loop t (i + 1) else [])"
  by pat_completeness auto
termination by (relation "measure (\<lambda>(t, i). nat (avl_size t - i))") auto

declare print_loop.simps [simp del]

text \<open>\<open>main\<close>: ten insertions of \<open>rand()\<close> values, the print loop, \<open>clear()\<close>, the printed
  size, and the destructor at the end of scope. The result is what is printed (the values,
  then the size) and the final state.\<close>

definition main_model :: "int list \<Rightarrow> int option list \<times> int \<times> int avl_tree" where
  "main_model rands =
     (let t = fold avl_insert (take 10 rands) AVLTree;
          out = print_loop t 0;
          t' = avl_clear t
      in (out, avl_size t', avl_destroy t'))"

subsection \<open>display prints the sorted sequence\<close>

lemma entries_append [simp]: "entries (xs @ ys) = entries xs @ entries ys"
  by (induction xs rule: entries.induct) simp_all

lemma depth_range_shift:
  "\<forall>e\<in>S. d + 1 \<le> fst e \<and> fst e < d + 1 + k \<Longrightarrow> k + 1 \<le> k' \<Longrightarrow>
   \<forall>e\<in>S. d \<le> fst e \<and> fst e < d + (k' :: nat)"
  by force

text \<open>The null checks before the recursive calls only skip calls that print nothing.\<close>

lemma display_rec_guard [simp]: "(if t \<noteq> Null then display_rec t d st else []) = display_rec t d st"
  by (cases t) auto

lemma display_rec_entries:
  "map snd (entries (display_rec t d st)) = inorder t \<and>
   (\<forall>e\<in>set (entries (display_rec t d st)). d \<le> fst e \<and> fst e < d + height t)"
proof (induction t arbitrary: d st)
  case (Node l v c h s r)
  have "\<forall>e\<in>set (entries (display_rec l (d + 1) LeftSide)). d \<le> fst e \<and> fst e < d + height (Node l v c h s r)"
    using depth_range_shift [OF conjunct2 [OF Node.IH(1) [of "d + 1" LeftSide]], of "height (Node l v c h s r)"]
    by simp
  moreover have "\<forall>e\<in>set (entries (display_rec r (d + 1) RightSide)). d \<le> fst e \<and> fst e < d + height (Node l v c h s r)"
    using depth_range_shift [OF conjunct2 [OF Node.IH(2) [of "d + 1" RightSide]], of "height (Node l v c h s r)"]
    by simp
  ultimately show ?case using Node.IH(1) [of "d + 1" LeftSide] Node.IH(2) [of "d + 1" RightSide] by auto
qed simp

subsection \<open>main prints the inserted values in order\<close>

lemma fold_insert_inv:
  "tree_inv t \<Longrightarrow>
   tree_inv (fold avl_insert xs t) \<and> mset (inorder (root (fold avl_insert xs t))) = mset xs + mset (inorder (root t))"
proof (induction xs arbitrary: t)
  case (Cons x xs)
  have "tree_inv (avl_insert x t)" using Cons.prems by (rule tree_inv_avl_insert)
  moreover have "mset (inorder (root (avl_insert x t))) = add_mset x (mset (inorder (root t)))"
    using Cons.prems by (simp add: avl_insert_eq tree_inv_def bst_def inorder_ins_rec)
  ultimately show ?case using Cons.IH [of "avl_insert x t"] by simp
qed simp

lemma print_loop_inorder:
  "tree_inv t \<Longrightarrow> avl_size t < 2 ^ 31 \<Longrightarrow> 0 \<le> i \<Longrightarrow>
   print_loop t i = map (\<lambda>k. Some (inorder (root t) ! k)) [nat i..<length (inorder (root t))]"
proof (induction t i rule: print_loop.induct)
  case (1 t i)
  note sz = avl_size_length [OF "1.prems"(1)]
  show ?case
  proof (cases "i < avl_size t")
    case True
    then have "nat i < length (inorder (root t))" "nat i < 2 ^ 31" using sz "1.prems" by simp_all
    moreover have "unat (word_of_int i :: size_t) = nat i"
      using True "1.prems" by (simp add: unat_word_of_int_small)
    ultimately have "avl_at t (word_of_int i) = Some (inorder (root t) ! nat i)"
      using avl_at_inorder [OF "1.prems"(1), of "word_of_int i"] by simp
    moreover have "[nat i..<length (inorder (root t))] = nat i # [nat (i + 1)..<length (inorder (root t))]"
      using \<open>nat i < length (inorder (root t))\<close> "1.prems"(3) by (simp add: upt_conv_Cons nat_add_distrib)
    ultimately show ?thesis using "1.IH" [OF True "1.prems"(1,2)] True "1.prems"(3)
      by (subst print_loop.simps) simp
  next
    case False then show ?thesis using sz by (subst print_loop.simps) simp
  qed
qed

subsection \<open>Properties of display and main\<close>

text \<open>
  C29. \<open>display()\<close> on a tree satisfying the invariant prints one line per stored value,
  in sorted order, each indented by a depth below the tree's height, and prints
  \<open>Empty\<close> exactly when \<open>empty()\<close> holds.
\<close>

theorem display_shows_sorted:
  "tree_inv t \<Longrightarrow>
   map snd (entries (avl_display t)) = inorder (root t) \<and>
   (\<forall>e\<in>set (entries (avl_display t)). fst e < height (root t)) \<and>
   (EmptyMsg \<in> set (avl_display t) \<longleftrightarrow> avl_empty t)"
proof -
  assume inv: "tree_inv t"
  have e: "avl_empty t \<longleftrightarrow> root t = Null"
    using inv by (simp add: avl_empty_def tree_inv_def aggr_simps)
  have "EmptyMsg \<notin> set (display_rec u d st)" for u :: "'a node" and d st
    by (induction u arbitrary: d st) auto
  then show ?thesis using display_rec_entries [of "root t" 0 AtRoot] e
    by (cases "root t = Null") (auto simp: avl_display_def)
qed

theorem display_shows_sorted_witness:
  "map snd (entries (avl_display (avl_insert (1::int) (avl_insert 3 (avl_insert 5 AVLTree))))) = [1, 3, 5] \<and>
   EmptyMsg \<notin> set (avl_display (avl_insert (1::int) (avl_insert 3 (avl_insert 5 AVLTree))))"
proof -
  have "\<not> avl_empty (avl_insert (1::int) (avl_insert 3 (avl_insert 5 AVLTree)))"
    using avl_size_length [OF tree_inv_small_example] by (simp add: avl_empty_def avl_size_def inorder_small_example)
  then show ?thesis using display_shows_sorted [OF tree_inv_small_example] by (simp add: inorder_small_example)
qed

text \<open>
  C30. \<open>main\<close> prints the ten values \<open>rand()\<close> returned in ascending order (no \<open>tree[i]\<close>
  dereferences null), then prints 0 for the size after \<open>clear()\<close>, and the destructor
  leaves the empty tree.
\<close>

theorem main_prints_sorted:
  "main_model rands = (map Some (sort (take 10 rands)), 0, AVLTree)"
proof -
  let ?xs = "take 10 rands"
  let ?t = "fold avl_insert ?xs AVLTree"
  have "tree_inv (AVLTree :: int avl_tree)" by (simp add: AVLTree_def tree_inv_def bst_def)
  from fold_insert_inv [OF this, of ?xs]
  have inv: "tree_inv ?t" and m: "mset (inorder (root ?t)) = mset ?xs" by (simp_all add: AVLTree_def)
  have "sorted (inorder (root ?t))" using inv by (simp add: tree_inv_def bst_def)
  then have srt: "inorder (root ?t) = sort ?xs" by (rule sorted_mset_unique) (simp_all add: m)
  have sz: "avl_size ?t = int (length ?xs)" using avl_size_length [OF inv] srt by simp
  then have "avl_size ?t < 2 ^ 31" by simp
  then have "print_loop ?t 0 = map (\<lambda>k. Some (sort ?xs ! k)) [0..<length (sort ?xs)]"
    using print_loop_inorder [OF inv] srt by simp
  also have "\<dots> = map Some (sort ?xs)" by (rule nth_equalityI) simp_all
  finally have p: "print_loop ?t 0 = map Some (sort ?xs)" .
  have c: "avl_clear ?t = AVLTree"
    using sz srt by (simp add: avl_clear_eq avl_size_def AVLTree_def)
  have e: "avl_clear (AVLTree :: int avl_tree) = AVLTree" by (simp add: avl_clear_eq AVLTree_def)
  show ?thesis unfolding main_model_def Let_def avl_destroy_def
    by (simp only: p c e) (simp add: avl_size_def AVLTree_def)
qed

subsection \<open>The printed text\<close>

lemma newlines_display_line:
  "nl \<notin> set ml \<Longrightarrow> nl \<notin> set mr \<Longrightarrow> (\<forall>x. nl \<notin> set (shw x)) \<Longrightarrow>
   length (filter (\<lambda>ch. ch = nl) (display_line shw ml mr e)) = (case e of EmptyMsg \<Rightarrow> 0 | _ \<Rightarrow> 1)"
proof (cases e)
  case (Entry d st v s)
  assume a: "nl \<notin> set ml" "nl \<notin> set mr" "\<forall>x. nl \<notin> set (shw x)"
  have "filter (\<lambda>ch. ch = nl) (concat (replicate d ''     '')) = []"
    by (induction d) (simp_all add: nl_def)
  moreover have "filter (\<lambda>ch. ch = nl) (case st of AtRoot \<Rightarrow> [] | LeftSide \<Rightarrow> ml | RightSide \<Rightarrow> mr) = []"
    using a by (cases st) (auto simp: filter_empty_conv)
  moreover have "filter (\<lambda>ch. ch = nl) (shw x) = []" for x using a by (auto simp: filter_empty_conv)
  ultimately show ?thesis using Entry by (simp add: nl_def)
qed (simp_all add: nl_def)

lemma newlines_display_rec:
  "nl \<notin> set ml \<Longrightarrow> nl \<notin> set mr \<Longrightarrow> (\<forall>x. nl \<notin> set (shw x)) \<Longrightarrow>
   length (filter (\<lambda>ch. ch = nl) (concat (map (display_line shw ml mr) (display_rec t d st)))) =
   length (inorder t)"
proof (induction t arbitrary: d st)
  case (Node l v c h s r)
  then show ?case using newlines_display_line [OF Node.prems, of "Entry d st v s"]
    by (simp del: display_line.simps)
qed simp

text \<open>
  C38. The text \<open>display()\<close> writes: for an empty tree exactly a newline, \<open>Empty\<close> and a
  newline; otherwise, when neither the printed values nor the markers contain a newline,
  one newline before the tree, one line per stored value and one newline after it.
\<close>

theorem display_text_lines:
  "tree_inv t \<Longrightarrow> nl \<notin> set ml \<Longrightarrow> nl \<notin> set mr \<Longrightarrow> (\<forall>x. nl \<notin> set (shw x)) \<Longrightarrow>
   (avl_empty t \<longrightarrow> avl_display_text shw ml mr t = [nl] @ ''Empty'' @ [nl]) \<and>
   length (filter (\<lambda>ch. ch = nl) (avl_display_text shw ml mr t)) = nat (avl_size t) + 2"
proof -
  assume inv: "tree_inv t" and a: "nl \<notin> set ml" "nl \<notin> set mr" "\<forall>x. nl \<notin> set (shw x)"
  have e: "avl_empty t \<longleftrightarrow> root t = Null"
    using inv by (simp add: avl_empty_def tree_inv_def aggr_simps)
  have sz: "nat (avl_size t) = length (inorder (root t))" using avl_size_length [OF inv] by simp
  show ?thesis
  proof (cases "root t = Null")
    case True
    then show ?thesis using e sz by (simp add: avl_display_text_def avl_display_def nl_def)
  next
    case False
    then show ?thesis using e sz newlines_display_rec [OF a, of "root t" 0 AtRoot]
      by (simp add: avl_display_text_def avl_display_def nl_def)
  qed
qed

theorem display_text_lines_witness:
  "avl_display_text (\<lambda>x. ''v'') ''<'' ''>'' (AVLTree :: int avl_tree) = [nl] @ ''Empty'' @ [nl] \<and>
   length (filter (\<lambda>ch. ch = nl)
     (avl_display_text (\<lambda>x. ''v'') ''<'' ''>'' (avl_insert (1::int) (avl_insert 3 (avl_insert 5 AVLTree))))) = 5"
proof -
  have i: "tree_inv (AVLTree :: int avl_tree)" by (simp add: AVLTree_def tree_inv_def bst_def)
  have e: "avl_empty (AVLTree :: int avl_tree)" by (simp add: AVLTree_def avl_empty_def)
  have n: "nl \<notin> set ''<''" "nl \<notin> set ''>''" "\<forall>x. nl \<notin> set ((\<lambda>x. ''v'') x)" by (simp_all add: nl_def)
  have z: "avl_size (avl_insert (1::int) (avl_insert 3 (avl_insert 5 AVLTree))) = 3"
    using avl_size_length [OF tree_inv_small_example] by (simp add: inorder_small_example)
  show ?thesis
    using display_text_lines [OF i n] e display_text_lines [OF tree_inv_small_example n] z by simp
qed

end
