(* ===== verification/Spec2Isabelle.thy ===== *)
theory Spec2Isabelle
  imports AVL_Erase AVL_Query AVL_RangeSum AVL_Height AVL_Driver AVL_EraseBound
begin

text \<open>
  \<^bold>\<open>An order-statistics AVL tree with range sums\<close> (\<open>src/onefile.cpp\<close>; the node
  declaration is repeated in \<open>src/AVLTreeNode.hpp\<close>).

  \<^bold>\<open>The program.\<close> \<open>struct AVLTreeNode<T>\<close> holds a value, two owning child pointers and
  three cached aggregates (\<open>count\<close>, \<open>height\<close>, \<open>sum\<close>), with \<open>updateValues\<close>,
  \<open>balanceFactor\<close>, \<open>left_rotate\<close> and \<open>right_rotate\<close>. \<open>class AVLTree<T>\<close> owns the root
  and an independently kept \<open>_size\<close>. \<open>insert\<close> and \<open>erase\<close> walk down from the root
  recording the addresses of the owning pointers they pass (\<open>AVLTreeNode**\<close>, "the
  path"), splice at the end of the path and call \<open>balance\<close>, which recomputes and if
  needed rotates every slot of the path from the deepest up. The queries \<open>find\<close>,
  \<open>lower_bound\<close>, \<open>upper_bound\<close>, \<open>find_min\<close>, \<open>find_max\<close>, \<open>operator[]\<close> and the range
  sum \<open>sum(l, r)\<close> walk one or two root-to-leaf paths using the aggregates. \<open>clear\<close>
  deletes all nodes with an explicit stack.

  \<^bold>\<open>The library.\<close>
  \<^item> \<open>AVL_Prelude\<close>: facts on sorted lists, filters and multisets shared by the proofs,
    and the 64-bit \<open>size_t\<close> read through the 32-bit \<open>int\<close> cast (\<open>sint\<close> of the
    low 32 bits).
  \<^item> \<open>AVL_Node\<close>: the node as a datatype (\<open>Null\<close> is the null pointer; fields
    \<open>left\<close>, \<open>node_value\<close>, \<open>node_count\<close>, \<open>node_height\<close>, \<open>node_sum\<close>, \<open>right\<close>), the
    constructor \<open>new_node\<close>, \<open>updateValues\<close>, \<open>balanceFactor\<close>, \<open>left_rotate\<close>,
    \<open>right_rotate\<close>; the abstraction \<open>inorder\<close>, the real \<open>height\<close>, the invariant
    \<open>aggr_inv\<close> (every cached field is what \<open>updateValues\<close> would compute), \<open>avl\<close> and
    \<open>bst\<close> (sorted in-order sequence; after rotations equal values may sit on both sides
    of a node, so the order is the non-strict one).
  \<^item> \<open>AVL_Balance\<close>: slots as direction lists from the root (\<open>get_slot\<close>,
    \<open>update_slot\<close>), one iteration of \<open>balance\<close> as \<open>balance_step\<close>, \<open>balance\<close> as a
    fold over the reversed path; the rotation cases and what one step repairs.
  \<^item> \<open>AVL_Tree\<close>: the record \<open>avl_tree\<close> (\<open>tree_size\<close> is \<open>_size\<close>), the constructor
    \<open>AVLTree\<close>, \<open>clear\<close> with its stack loop \<open>clear_loop\<close> (a \<open>function\<close> whose termination
    is proved with the measure \<open>\<Sum> (2 * size + 1)\<close> over the stack), \<open>empty\<close>, \<open>size\<close>,
    and \<open>tree_inv\<close> (aggregates, order, and \<open>_size\<close> equal to the node count).
  \<^item> \<open>AVL_Insert\<close>: \<open>insert\<close> as written (descent loop \<open>ins_descend\<close> with the slot and
    path accumulators), the recursive reference \<open>ins_rec\<close>, and the proof that the first
    computes the second (\<open>ins_descend_balance\<close>).
  \<^item> \<open>AVL_Erase\<close>: \<open>erase\<close> as written (\<open>del_descend\<close>, \<open>succ_descend\<close>, \<open>erase_found\<close>
    with the three splices and the \<open>path[index]\<close> rewrite), the recursive reference
    \<open>del_rec\<close> (\<open>del_min\<close>, \<open>del_root\<close>) and the proof that the first computes the second.
  \<^item> \<open>AVL_Query\<close>, \<open>AVL_RangeSum\<close>: the read-only walks as functions on the subtree a
    loop stands at, with the code's accumulators; \<open>operator[]\<close> takes a \<open>64 word\<close> and
    compares \<open>int_of_size_t\<close> of it, as \<open>int(idx)\<close> does.
  \<^item> \<open>AVL_Height\<close>: the height-size relation of balanced trees, the length of the
    path \<open>insert\<close> records, and the height change of \<open>insert\<close>.
  \<^item> \<open>AVL_EraseBound\<close>: one lemma per branch of \<open>balance\<close> on a node whose one side a
    deletion shrank, the bound on the imbalance a single \<open>erase\<close> leaves, and the length
    of the paths the descent loops of \<open>erase\<close> build.
  \<^item> \<open>AVL_Driver\<close>: the destructor, \<open>display\<close> as the list of lines it prints and as
    the characters it writes (\<open>display_line\<close>, \<open>avl_display_text\<close>), and
    \<open>main\<close> with its print loop \<open>print_loop\<close> (a \<open>function\<close> terminating by the measure
    \<open>size() - i\<close>), the values of \<open>rand()\<close> being its parameter.
  \<^item> this theory: the public mutators as a datatype of operations with a step function
    \<open>exec_op\<close>, runs \<open>run_ops\<close>, the reachable states, the multiset the tree stands for
    (\<open>abs_op\<close>, \<open>abs_run\<close>), and the properties spanning components.

  \<^bold>\<open>What is shown.\<close> Insertion keeps every invariant including the AVL balance (C1) and
  inserts into the sorted sequence (C4). Erasure keeps the aggregates, the order and the
  size bookkeeping (C3) and removes one occurrence (C5), but \<^emph>\<open>not\<close> the balance: when the
  node being rebalanced is left-heavy by two and its left child is itself balanced (which
  only a deletion produces), \<open>balance\<close> performs the double rotation where the single one
  is needed, and leaves a node with balance factor 2 below the new root; a run of eight
  insertions and one erase exhibits it (C2). Both mutators are proved equal to recursive
  references (C10, C11), every query is correct against the in-order sequence (C6,
  C12--C16), one step of \<open>balance\<close> repairs every shape an insertion leaves (C18) and
  \<open>insert\<close> changes the height by at most one level (C21), runs of operations refine the
  multiset of stored values (C7), every reachable state satisfies the invariant (C8), runs
  without erase stay balanced (C9), and \<open>sum(l, r)\<close> equals the scan of \<open>operator[]\<close>
  over the indices from \<open>lower_bound(l)\<close> to \<open>upper_bound(r)\<close> (C22). \<open>operator[]\<close> is indexing (C15) and dual to \<open>find\<close> (C17, C24) below
  \<open>2^31\<close>, while larger indices alias or run off the tree through the \<open>int\<close> cast
  (C25). The paths \<open>insert\<close> and \<open>erase\<close> hand to \<open>balance\<close> are logarithmic in the size
  (C26, C32).
  \<open>clear\<close> empties the tree (C19), inserting and erasing a list is a round trip (C20),
  \<open>sum\<close> over the whole span and at a single value are the expected totals (C27, C28),
  \<open>display\<close> prints the sorted sequence (C29), \<open>main\<close> prints its ten values sorted
  and then 0 (C30), and erasing
  every stored value always reaches the empty tree (C31). The erase defect is measured:
  one \<open>erase\<close> on a balanced tree leaves height differences of at most 2 (C37, reached by
  C2), but interleaved operations accumulate it, to a difference of 4 after 42 operations
  (C33), so the balance invariant of the specification is not restored by later
  operations either (whether the difference can grow without bound is left open). \<open>insert\<close> and
  \<open>erase\<close> move \<open>lower_bound(x)\<close> and \<open>upper_bound(x)\<close> by one exactly when the value
  they add or remove lies below (at most) \<open>x\<close> (C34), the specification's strict per-node order does
  not hold with duplicates (C35), and inserting then erasing a value is a round trip on
  the sorted sequence (C36). The text \<open>display\<close> writes has one newline per stored value
  plus the two framing ones (C38). Against the multiset contract, after any run of
  operations \<open>upper_bound(x) - lower_bound(x)\<close> is the multiplicity of \<open>x\<close> (C39), and
  \<open>sum\<close>, \<open>find_min\<close> and \<open>find_max\<close> are the restricted sum, minimum and maximum of the
  multiset (C40).

  \<^bold>\<open>Modelling choices.\<close> C++ \<open>int\<close> fields are \<open>int\<close>: they count nodes, and
  \<open>tree_inv\<close> makes them equal to list lengths, so they stay below \<open>2^31\<close> as long as the
  tree has fewer nodes; their overflow is not modelled, and the claims that convert
  between \<open>int\<close> and \<open>size_t\<close> assume \<open>size() < 2^31\<close>. \<open>std::size_t\<close> is \<open>64 word\<close>.
  The value type is any linear order with a commutative monoid; for \<open>long long\<close> the
  model's addition is the mathematical one, faithful while the sums fit in 64 bits (signed
  overflow is undefined in C++). Null dereferences (\<open>find_min\<close>/\<open>find_max\<close>/\<open>operator[]\<close> out of range)
  and the failing \<open>assert\<close> of \<open>sum\<close> are the result \<open>None\<close>; the unreachable null
  dereferences inside rotations are identities, and the proof of
  \<open>aggr_inv_balance_step\<close> shows \<open>balance\<close> never reaches them. A pointer comparison of nodes is a comparison of their slots (no node has two
  owners). Loops are structural recursion on the subtree they stand at, so no fuel is
  needed; \<open>clear\<close>'s loop has a termination proof.

  \<^bold>\<open>Not modelled.\<close> Memory allocation and \<open>delete\<close> themselves; in \<open>display\<close>, how
  \<open>operator<<\<close> prints a value and which bytes \<open>std::wcerr\<close> writes for the two wide
  markers under the locale \<open>setlocale(LC_ALL, "")\<close> selects (both are parameters of
  \<open>avl_display_text\<close>; mixing \<open>std::cerr\<close> and \<open>std::wcerr\<close> on one stream is
  implementation-defined); the generator behind \<open>rand()\<close>.
\<close>

section \<open>Operations, runs and reachable states\<close>

datatype 'a op = Insert 'a | Erase 'a | Clear

fun exec_op :: "'a::{linorder,plus,zero} op \<Rightarrow> 'a avl_tree \<Rightarrow> 'a avl_tree" where
  "exec_op (Insert x) t = avl_insert x t"
| "exec_op (Erase x) t = avl_erase x t"
| "exec_op Clear t = avl_clear t"

fun run_ops :: "'a::{linorder,plus,zero} op list \<Rightarrow> 'a avl_tree \<Rightarrow> 'a avl_tree" where
  "run_ops [] t = t"
| "run_ops (op # ops) t = run_ops ops (exec_op op t)"

definition build :: "'a::{linorder,plus,zero} list \<Rightarrow> 'a avl_tree" where
  "build xs = run_ops (map Insert xs) AVLTree"

fun is_erase :: "'a op \<Rightarrow> bool" where
  "is_erase (Erase _) = True"
| "is_erase _ = False"

inductive reachable :: "'a::{linorder,plus,zero} avl_tree \<Rightarrow> bool" where
  init: "reachable AVLTree"
| step: "reachable t \<Longrightarrow> reachable (exec_op op t)"

text \<open>The abstract contract: the tree stands for the multiset of its values.\<close>

fun abs_op :: "'a op \<Rightarrow> 'a multiset \<Rightarrow> 'a multiset" where
  "abs_op (Insert x) M = add_mset x M"
| "abs_op (Erase x) M = M - {#x#}"
| "abs_op Clear M = {#}"

fun abs_run :: "'a op list \<Rightarrow> 'a multiset \<Rightarrow> 'a multiset" where
  "abs_run [] M = M"
| "abs_run (op # ops) M = abs_run ops (abs_op op M)"

section \<open>Properties spanning the components\<close>

lemma tree_inv_AVLTree: "tree_inv AVLTree"
  by (simp add: AVLTree_def tree_inv_def bst_def)

lemma tree_inv_avl_clear: "tree_inv t \<Longrightarrow> tree_inv (avl_clear t)"
  by (simp add: avl_clear_eq tree_inv_def bst_def aggr_simps)

lemma tree_inv_exec_op: "tree_inv t \<Longrightarrow> tree_inv (exec_op op t)"
  by (cases op) (simp_all add: tree_inv_avl_insert tree_inv_avl_erase tree_inv_avl_clear)

lemma mset_exec_op:
  "tree_inv t \<Longrightarrow> mset (inorder (root (exec_op op t))) = abs_op op (mset (inorder (root t)))"
proof (cases op)
  case (Insert x)
  assume "tree_inv t"
  then show ?thesis using Insert mset_ins_rec [of x "root t"] by (simp add: avl_insert_eq)
next
  case (Erase x)
  assume "tree_inv t"
  then show ?thesis using Erase avl_erase_present [of t x] avl_erase_absent [of t x]
    by (cases "x \<in> set (inorder (root t))") (auto simp: tree_inv_def bst_def)
qed (simp add: avl_clear_eq)

lemma run_ops_inv_mset:
  "tree_inv t \<Longrightarrow> tree_inv (run_ops ops t) \<and>
   mset (inorder (root (run_ops ops t))) = abs_run ops (mset (inorder (root t)))"
  by (induction ops arbitrary: t) (simp_all add: tree_inv_exec_op mset_exec_op)

lemma avl_exec_op_no_erase:
  "tree_inv t \<Longrightarrow> avl (root t) \<Longrightarrow> \<not> is_erase op \<Longrightarrow> avl (root (exec_op op t))"
  by (cases op) (simp_all add: avl_avl_insert avl_clear_eq)

lemma abs_run_erase_all: "abs_run (map Erase xs) (mset xs + M) = M"
  by (induction xs arbitrary: M) simp_all

lemma abs_run_insert_all: "abs_run (map Insert xs) M = mset xs + M"
  by (induction xs arbitrary: M) simp_all

lemma abs_run_append: "abs_run (ops @ ops') M = abs_run ops' (abs_run ops M)"
  by (induction ops arbitrary: M) simp_all

lemma run_ops_append: "run_ops (ops @ ops') t = run_ops ops' (run_ops ops t)"
  by (induction ops arbitrary: t) simp_all

subsection \<open>The erase balance defect\<close>

text \<open>
  C2. \<open>erase\<close> does not keep the AVL balance. Inserting 10, 5, 12, 3, 7, 13, 2, 8 yields a
  tree that satisfies the invariant and is balanced; erasing 13 then leaves the root
  left-heavy by two with a balanced left child, \<open>balance\<close> takes the left-right branch
  (\<open>balanceFactor(left) >= 1\<close> fails at 0), and the node 5 ends up with a left subtree of
  height 2 and no right subtree. The specification's "after any sequence of insert/erase,
  \<open>|balanceFactor| \<le> 1\<close>" is false for the code.
\<close>

theorem erase_unbalances_counterexample:
  "tree_inv (build [10, 5, 12, 3, 7, 13, 2, 8 :: int]) \<and> avl (root (build [10, 5, 12, 3, 7, 13, 2, 8 :: int])) \<and>
   \<not> avl (root (avl_erase 13 (build [10, 5, 12, 3, 7, 13, 2, 8 :: int])))"
  by (simp add: build_def AVLTree_def avl_insert_eq avl_erase_eq new_node_def balance_step_def
      del_root_def tree_inv_def bst_def)

text \<open>
  C33. The defect accumulates: interleaving insertions and erasures drives the height
  difference at a node far beyond the AVL bound. After the 42 operations below, started
  from the empty tree, the tree still satisfies the order and aggregate invariant, but
  some node has subtrees whose heights differ by 4.
\<close>

theorem mixed_run_imbalance_4:
  "tree_inv (run_ops [Insert (4::int), Insert 29, Insert 18, Insert 6, Insert 3, Insert 14, Insert 11, Insert 30, Erase 4, Erase 6, Insert 12, Insert 2, Insert 10, Insert 9, Insert 5, Insert 8, Erase 3, Insert 1, Erase 12, Insert 13, Erase 14, Insert 15, Insert 22, Erase 13, Erase 11, Insert 28, Insert 27, Insert 26, Insert 25, Erase 10, Insert 24, Insert 19, Insert 16, Erase 25, Insert 21, Insert 23, Insert 20, Erase 16, Insert 17, Erase 26, Insert 31, Insert 7] AVLTree) \<and>
   imbalance (root (run_ops [Insert (4::int), Insert 29, Insert 18, Insert 6, Insert 3, Insert 14, Insert 11, Insert 30, Erase 4, Erase 6, Insert 12, Insert 2, Insert 10, Insert 9, Insert 5, Insert 8, Erase 3, Insert 1, Erase 12, Insert 13, Erase 14, Insert 15, Insert 22, Erase 13, Erase 11, Insert 28, Insert 27, Insert 26, Insert 25, Erase 10, Insert 24, Insert 19, Insert 16, Erase 25, Insert 21, Insert 23, Insert 20, Erase 16, Insert 17, Erase 26, Insert 31, Insert 7] AVLTree)) = 4"
proof -
  have "tree_inv (run_ops [Insert (4::int), Insert 29, Insert 18, Insert 6, Insert 3, Insert 14, Insert 11, Insert 30, Erase 4, Erase 6, Insert 12, Insert 2, Insert 10, Insert 9, Insert 5, Insert 8, Erase 3, Insert 1, Erase 12, Insert 13, Erase 14, Insert 15, Insert 22, Erase 13, Erase 11, Insert 28, Insert 27, Insert 26, Insert 25, Erase 10, Insert 24, Insert 19, Insert 16, Erase 25, Insert 21, Insert 23, Insert 20, Erase 16, Insert 17, Erase 26, Insert 31, Insert 7] AVLTree)"
    using run_ops_inv_mset [OF tree_inv_AVLTree] by blast
  moreover have "imbalance (root (run_ops [Insert (4::int), Insert 29, Insert 18, Insert 6, Insert 3, Insert 14, Insert 11, Insert 30, Erase 4, Erase 6, Insert 12, Insert 2, Insert 10, Insert 9, Insert 5, Insert 8, Erase 3, Insert 1, Erase 12, Insert 13, Erase 14, Insert 15, Insert 22, Erase 13, Erase 11, Insert 28, Insert 27, Insert 26, Insert 25, Erase 10, Insert 24, Insert 19, Insert 16, Erase 25, Insert 21, Insert 23, Insert 20, Erase 16, Insert 17, Erase 26, Insert 31, Insert 7] AVLTree)) = 4"
    by (simp add: AVLTree_def avl_insert_eq avl_erase_eq new_node_def balance_step_def del_root_def)
  ultimately show ?thesis by blast
qed

text \<open>
  C35. The per-node strict order of the specification (left values \<open>< value\<close>, right
  values \<open>\<ge> value\<close>) does not hold for the code: inserting 2 three times rotates a copy of 2
  into the left subtree of another 2. Only the non-strict order of the in-order sequence
  is an invariant.
\<close>

theorem spec_strict_order_fails:
  "tree_inv (build [2, 2, 2 :: int]) \<and> \<not> spec_order (root (build [2, 2, 2 :: int]))"
  by (simp add: build_def AVLTree_def tree_inv_def bst_def avl_insert_eq new_node_def balance_step_def)

subsection \<open>Runs, reachable states and the multiset contract\<close>

text \<open>
  C7. Every run of \<open>insert\<close>/\<open>erase\<close>/\<open>clear\<close> refines the multiset semantics: from a tree
  satisfying the invariant, the values stored after the run form the multiset obtained by
  adding each inserted value, removing one occurrence of each erased value that is present
  and emptying on \<open>clear\<close>; \<open>size()\<close> is that multiset's size and the invariant holds.
\<close>

theorem run_refines_multiset:
  "tree_inv t \<Longrightarrow>
   mset (inorder (root (run_ops ops t))) = abs_run ops (mset (inorder (root t))) \<and>
   avl_size (run_ops ops t) = int (size (abs_run ops (mset (inorder (root t))))) \<and>
   tree_inv (run_ops ops t)"
proof -
  assume "tree_inv t"
  then have inv: "tree_inv (run_ops ops t)"
    and m: "mset (inorder (root (run_ops ops t))) = abs_run ops (mset (inorder (root t)))"
    using run_ops_inv_mset by blast+
  have "avl_size (run_ops ops t) = int (length (inorder (root (run_ops ops t))))"
    using inv by (simp add: avl_size_def tree_inv_def aggr_simps)
  also have "\<dots> = int (size (abs_run ops (mset (inorder (root t)))))"
    by (metis m size_mset)
  finally show ?thesis using inv m by blast
qed

theorem run_refines_multiset_witness:
  "mset (inorder (root (run_ops [Insert 2, Insert 2, Erase 2, Insert (5::int)] AVLTree))) = {#2, 5#} \<and>
   avl_size (run_ops [Insert 2, Insert 2, Erase 2, Insert (5::int)] AVLTree) = 2"
  using run_refines_multiset [OF tree_inv_AVLTree, of "[Insert 2, Insert 2, Erase 2, Insert (5::int)]"]
  by (simp add: AVLTree_def)

text \<open>
  C8. Every reachable state (the empty tree and whatever \<open>insert\<close>, \<open>erase\<close> and \<open>clear\<close>
  make of a reachable state) satisfies the invariant: cached aggregates correct, in-order
  sequence sorted, \<open>_size\<close> equal to the node count.
\<close>

theorem reachable_tree_inv: "reachable t \<Longrightarrow> tree_inv t"
proof (induction rule: reachable.induct)
  case init then show ?case by (rule tree_inv_AVLTree)
next
  case (step t op) then show ?case by (simp add: tree_inv_exec_op)
qed

theorem reachable_tree_inv_witness:
  "tree_inv (exec_op (Erase 1) (exec_op (Insert (1::int)) AVLTree))"
proof -
  have "reachable (exec_op (Erase 1) (exec_op (Insert (1::int)) AVLTree))"
    by (intro reachable.step reachable.init)
  then show ?thesis by (rule reachable_tree_inv)
qed

text \<open>
  C9. Runs that never erase keep the AVL balance: from the empty tree, any sequence of
  \<open>insert\<close> and \<open>clear\<close> ends in a tree satisfying the invariant whose every node has
  subtrees differing in height by at most one.
\<close>

theorem erase_free_runs_balanced:
  "\<forall>op \<in> set ops. \<not> is_erase op \<Longrightarrow> tree_inv (run_ops ops AVLTree) \<and> avl (root (run_ops ops AVLTree))"
proof -
  have "tree_inv t \<Longrightarrow> avl (root t) \<Longrightarrow> \<forall>op \<in> set ops. \<not> is_erase op \<Longrightarrow>
        tree_inv (run_ops ops t) \<and> avl (root (run_ops ops t))" for t
    by (induction ops arbitrary: t) (simp_all add: tree_inv_exec_op avl_exec_op_no_erase)
  moreover have "avl (root (AVLTree :: 'a avl_tree))" by (simp add: AVLTree_def)
  ultimately show "\<forall>op \<in> set ops. \<not> is_erase op \<Longrightarrow> ?thesis" using tree_inv_AVLTree by blast
qed

theorem erase_free_runs_balanced_witness:
  "avl (root (run_ops [Insert (3::int), Insert 1, Clear, Insert 2] AVLTree))"
  using erase_free_runs_balanced [of "[Insert (3::int), Insert 1, Clear, Insert 2]"] by simp

text \<open>
  C20. Round trip: inserting any list of values into an empty tree and then erasing the
  same values again leaves an empty tree (null root, \<open>size() == 0\<close>).
\<close>

theorem insert_erase_round_trip:
  "root (run_ops (map Insert xs @ map Erase xs) AVLTree) = Null \<and>
   avl_size (run_ops (map Insert xs @ map Erase xs) AVLTree) = 0"
proof -
  have "abs_run (map Insert xs @ map Erase xs) (mset (inorder (root (AVLTree :: 'a avl_tree)))) = {#}"
    using abs_run_erase_all [of xs "{#}"] by (simp add: abs_run_append abs_run_insert_all AVLTree_def)
  then show ?thesis using run_ops_inv_mset [OF tree_inv_AVLTree, of "map Insert xs @ map Erase xs"]
    by (simp add: avl_size_length)
qed

text \<open>
  C31. From any tree satisfying the invariant, erasing the stored values one after the
  other (in any order that lists each copy once, here the in-order one) reaches the empty
  tree: the mutators can always bring the structure back to its initial state.
\<close>

theorem erase_all_reaches_empty:
  "tree_inv t \<Longrightarrow>
   root (run_ops (map Erase (inorder (root t))) t) = Null \<and> avl_size (run_ops (map Erase (inorder (root t))) t) = 0"
proof -
  assume inv: "tree_inv t"
  let ?ops = "map Erase (inorder (root t))"
  have "tree_inv (run_ops ?ops t)" and m: "mset (inorder (root (run_ops ?ops t))) = {#}"
    using run_ops_inv_mset [OF inv, of ?ops] abs_run_erase_all [of "inorder (root t)" "{#}"] by simp_all
  then show ?thesis by (simp add: avl_size_length)
qed

theorem erase_all_reaches_empty_witness:
  "root (run_ops [Erase 1, Erase 3, Erase 5] (avl_insert (1::int) (avl_insert 3 (avl_insert 5 AVLTree)))) = Null"
  using erase_all_reaches_empty [OF tree_inv_small_example] by (simp add: inorder_small_example)

text \<open>
  C36. Round trip: inserting a value and erasing it again leaves the sorted sequence and
  \<open>size()\<close> as they were (the shape of the tree may differ).
\<close>

theorem insert_then_erase:
  "tree_inv t \<Longrightarrow>
   inorder (root (avl_erase x (avl_insert x t))) = inorder (root t) \<and>
   avl_size (avl_erase x (avl_insert x t)) = avl_size t"
proof -
  assume inv: "tree_inv t"
  then have s: "sorted (inorder (root t))" by (simp add: tree_inv_def bst_def)
  have i: "tree_inv (avl_insert x t)" using inv by (rule tree_inv_avl_insert)
  have io: "inorder (root (avl_insert x t)) = insort x (inorder (root t))"
    using s by (simp add: avl_insert_eq inorder_ins_rec)
  then have "x \<in> set (inorder (root (avl_insert x t)))" by (simp add: set_insort_key)
  from avl_erase_present [OF i this] io show ?thesis
    by (simp add: avl_size_def avl_insert_eq)
qed

theorem insert_then_erase_witness:
  "inorder (root (avl_erase 4 (avl_insert 4 (avl_insert (1::int) (avl_insert 3 (avl_insert 5 AVLTree)))))) = [1, 3, 5]"
  using insert_then_erase [OF tree_inv_small_example, of 4] by (simp add: inorder_small_example)

subsection \<open>Rank and order\<close>

text \<open>
  C17. Rank/order duality: on a tree satisfying the invariant and holding distinct values
  (with \<open>_size\<close> within the range of \<open>int\<close>), for every index below \<open>size()\<close>,
  \<open>operator[]\<close> returns a value and \<open>find\<close> of that value returns the index.
\<close>

theorem rank_order_duality:
  assumes "tree_inv t" "distinct (inorder (root t))" "avl_size t < 2 ^ 31" "int (unat i) < avl_size t"
  shows "\<exists>y. avl_at t i = Some y \<and> avl_find t y = int (unat i)"
proof -
  let ?xs = "inorder (root t)" and ?i = "unat i"
  have len: "?i < length ?xs"
    using assms(4) avl_size_length [OF assms(1)] by (simp add: uint_less_int_iff)
  moreover have "length ?xs < 2 ^ 31" using assms(3) avl_size_length [OF assms(1)] by simp
  ultimately have small: "?i < 2 ^ 31" by simp
  with len have at: "avl_at t i = Some (?xs ! ?i)" using avl_at_inorder [OF assms(1)] by simp
  have "?xs ! ?i \<in> set ?xs" using len by simp
  then have "0 \<le> avl_find t (?xs ! ?i)" "nat (avl_find t (?xs ! ?i)) < length ?xs"
    "?xs ! nat (avl_find t (?xs ! ?i)) = ?xs ! ?i"
    using avl_find_inorder [OF assms(1)] by auto
  then have "nat (avl_find t (?xs ! ?i)) = ?i" using assms(2) len nth_eq_iff_index_eq by blast
  then have "avl_find t (?xs ! ?i) = int ?i" using \<open>0 \<le> avl_find t (?xs ! ?i)\<close> by (metis nat_eq_iff)
  then show ?thesis using at by blast
qed

theorem rank_order_duality_witness:
  "\<exists>y. avl_at (avl_insert (1::int) (avl_insert 3 (avl_insert 5 AVLTree))) 1 = Some y \<and>
       avl_find (avl_insert (1::int) (avl_insert 3 (avl_insert 5 AVLTree))) y = 1"
proof -
  have d: "distinct (inorder (root (avl_insert (1::int) (avl_insert 3 (avl_insert 5 AVLTree)))))"
    by (simp add: inorder_small_example)
  have z: "avl_size (avl_insert (1::int) (avl_insert 3 (avl_insert 5 AVLTree))) = 3"
    using avl_size_length [OF tree_inv_small_example] by (simp add: inorder_small_example)
  then have s: "avl_size (avl_insert (1::int) (avl_insert 3 (avl_insert 5 AVLTree))) < 2 ^ 31"
    and i: "int (unat (1 :: size_t)) < avl_size (avl_insert (1::int) (avl_insert 3 (avl_insert 5 AVLTree)))"
    by simp_all
  from rank_order_duality [OF tree_inv_small_example d s i] show ?thesis by simp
qed

text \<open>
  C24. \<open>at(lower_bound(v))\<close> (the \<open>int\<close> result converted to \<open>std::size_t\<close>) is the first
  stored value \<open>\<ge> v\<close>, and out of range (\<open>None\<close>) when there is none, on a tree whose
  \<open>_size\<close> is within the range of \<open>int\<close>.
\<close>

theorem at_lower_bound_first_ge:
  "tree_inv t \<Longrightarrow> avl_size t < 2 ^ 31 \<Longrightarrow>
   avl_at t (word_of_int (avl_lower_bound t v)) =
     (case filter (\<lambda>y. v \<le> y) (inorder (root t)) of [] \<Rightarrow> None | y # _ \<Rightarrow> Some y)"
proof -
  assume inv: "tree_inv t" and sz: "avl_size t < 2 ^ 31"
  let ?xs = "inorder (root t)"
  have s: "sorted ?xs" using inv by (simp add: tree_inv_def bst_def)
  have lb: "avl_lower_bound t v = int (length (takeWhile (\<lambda>y. y < v) ?xs))"
    using avl_lower_bound_inorder [OF inv, of v] s by (simp add: sorted_takeWhile_less)
  then have lb': "nat (avl_lower_bound t v) = length (takeWhile (\<lambda>y. y < v) ?xs)" by simp
  have f: "filter (\<lambda>y. v \<le> y) ?xs = dropWhile (\<lambda>y. y < v) ?xs"
    using s by (simp add: sorted_dropWhile_less)
  have n: "length ?xs = length (takeWhile (\<lambda>y. y < v) ?xs) + length (dropWhile (\<lambda>y. y < v) ?xs)"
    by (metis length_append takeWhile_dropWhile_id)
  have "length ?xs < 2 ^ 31" using sz avl_size_length [OF inv] by simp
  then have "0 \<le> avl_lower_bound t v" "avl_lower_bound t v < 2 ^ 31" using lb n by simp_all
  then have u: "unat (word_of_int (avl_lower_bound t v) :: size_t) = nat (avl_lower_bound t v)"
    by (rule unat_word_of_int_small)
  show ?thesis using avl_at_inorder [OF inv, of "word_of_int (avl_lower_bound t v)"] u lb' f n
      \<open>length ?xs < 2 ^ 31\<close> dropWhile_nth [of 0 "\<lambda>y. y < v" ?xs]
    by (cases "dropWhile (\<lambda>y. y < v) ?xs") auto
qed

theorem at_lower_bound_first_ge_witness:
  "avl_at (avl_insert (1::int) (avl_insert 3 (avl_insert 5 AVLTree)))
     (word_of_int (avl_lower_bound (avl_insert (1::int) (avl_insert 3 (avl_insert 5 AVLTree))) 2)) = Some 3 \<and>
   avl_at (avl_insert (1::int) (avl_insert 3 (avl_insert 5 AVLTree)))
     (word_of_int (avl_lower_bound (avl_insert (1::int) (avl_insert 3 (avl_insert 5 AVLTree))) 6)) = None"
proof -
  have "avl_size (avl_insert (1::int) (avl_insert 3 (avl_insert 5 AVLTree))) < 2 ^ 31"
    using avl_size_length [OF tree_inv_small_example] by (simp add: inorder_small_example)
  then show ?thesis
    using at_lower_bound_first_ge [OF tree_inv_small_example, of 2]
      at_lower_bound_first_ge [OF tree_inv_small_example, of 6]
    by (simp add: inorder_small_example)
qed

subsection \<open>Range sums at the extremes\<close>

lemma filter_eq_replicate_count: "filter (\<lambda>y. y = v) xs = replicate (count (mset xs) v) v"
  by (induction xs) auto

text \<open>
  C27. \<open>sum\<close> over the span from \<open>find_min()\<close> to \<open>find_max()\<close> is the sum of all stored
  values.
\<close>

theorem sum_full_span:
  "tree_inv t \<Longrightarrow> avl_find_min t = Some a \<Longrightarrow> avl_find_max t = Some b \<Longrightarrow>
   avl_sum t a b = Some (sum_list (inorder (root t)))"
proof -
  assume inv: "tree_inv t" and mn: "avl_find_min t = Some a" and mx: "avl_find_max t = Some b"
  let ?xs = "inorder (root t)"
  have s: "sorted ?xs" and ag: "aggr_inv (root t)" using inv by (simp_all add: tree_inv_def bst_def)
  have ne: "?xs \<noteq> []" and a: "a = hd ?xs" and b: "b = last ?xs"
    using mn mx by (auto simp: avl_find_min_def avl_find_max_def min_walk_correct max_walk_correct split: if_splits)
  have "\<forall>y\<in>set ?xs. a \<le> y \<and> y \<le> b"
    using s ne unfolding a b sorted_hd_is_Min [OF s ne] sorted_last_is_Max [OF s ne] by simp
  moreover have "a \<le> b" using calculation ne by (simp add: a)
  ultimately show ?thesis using avl_sum_filter [OF ag s] by (simp add: filter_id_conv)
qed

theorem sum_full_span_witness:
  "avl_sum (avl_insert (1::int) (avl_insert 3 (avl_insert 5 AVLTree))) 1 5 = Some 9"
proof -
  have ne: "root (avl_insert (1::int) (avl_insert 3 (avl_insert 5 AVLTree))) \<noteq> Null"
    using inorder_small_example by (metis inorder.simps(1) list.distinct(1))
  have "avl_find_min (avl_insert (1::int) (avl_insert 3 (avl_insert 5 AVLTree))) = Some 1"
    "avl_find_max (avl_insert (1::int) (avl_insert 3 (avl_insert 5 AVLTree))) = Some 5"
    using ne by (simp_all add: avl_find_min_def avl_find_max_def min_walk_correct max_walk_correct inorder_small_example)
  from sum_full_span [OF tree_inv_small_example this] show ?thesis by (simp add: inorder_small_example)
qed

text \<open>
  C28. \<open>sum(v, v)\<close> adds \<open>v\<close> once per stored copy of \<open>v\<close> (duplicates counted).
\<close>

theorem sum_single_value:
  "tree_inv t \<Longrightarrow> avl_sum t v v = Some (sum_list (replicate (count (mset (inorder (root t))) v) v))"
proof -
  assume inv: "tree_inv t"
  have "filter (\<lambda>y. v \<le> y \<and> y \<le> v) (inorder (root t)) = filter (\<lambda>y. y = v) (inorder (root t))"
    by (rule filter_cong) auto
  then show ?thesis using inv avl_sum_filter [of t v v]
    by (simp add: tree_inv_def bst_def filter_eq_replicate_count)
qed

theorem sum_single_value_witness:
  "avl_sum (build [2, 2, 2 :: int]) 2 2 = Some 6"
proof -
  have "tree_inv (build [2, 2, 2 :: int])" "inorder (root (build [2, 2, 2 :: int])) = [2, 2, 2]"
    by (simp_all add: build_def AVLTree_def tree_inv_def bst_def avl_insert_eq new_node_def balance_step_def)
  then show ?thesis using sum_single_value [of "build [2, 2, 2 :: int]" 2] by simp
qed

subsection \<open>Range sum against an index scan\<close>

lemma avl_upper_bound_inorder:
  "tree_inv t \<Longrightarrow> avl_upper_bound t x = int (length (filter (\<lambda>y. y \<le> x) (inorder (root t))))"
  using upper_walk_correct [of "root t" x 0] by (simp add: avl_upper_bound_def tree_inv_def bst_def)

text \<open>
  C22. \<open>sum(l, r)\<close> agrees with a plain scan through \<open>operator[]\<close>: for \<open>l \<le> r\<close> on a tree
  satisfying the invariant with \<open>size() < 2^31\<close>, every index \<open>i\<close> with
  \<open>lower_bound(l) \<le> i < upper_bound(r)\<close> is read without a null dereference, and the
  values read add up to \<open>sum(l, r)\<close>.
\<close>

theorem sum_equals_index_scan:
  "tree_inv t \<Longrightarrow> l \<le> r \<Longrightarrow> avl_size t < 2 ^ 31 \<Longrightarrow>
   \<exists>vs. map (\<lambda>i. avl_at t (of_nat i)) [nat (avl_lower_bound t l) ..< nat (avl_upper_bound t r)] =
          map Some vs \<and>
        avl_sum t l r = Some (sum_list vs)"
proof -
  assume inv: "tree_inv t" and lr: "l \<le> r" and sz: "avl_size t < 2 ^ 31"
  let ?xs = "inorder (root t)"
  define L U where "L = length (filter (\<lambda>y. y < l) ?xs)" and "U = length (filter (\<lambda>y. y \<le> r) ?xs)"
  have s: "aggr_inv (root t)" "sorted ?xs" using inv by (simp_all add: tree_inv_def bst_def)
  have b: "nat (avl_lower_bound t l) = L" "nat (avl_upper_bound t r) = U"
    using avl_lower_bound_inorder [OF inv] avl_upper_bound_inorder [OF inv] by (simp_all add: L_def U_def)
  have U: "U \<le> length ?xs" by (simp add: U_def)
  have len: "length ?xs < 2 ^ 31" using sz avl_size_length [OF inv] by simp
  have "avl_at t (of_nat i) = Some (?xs ! i)" if "i < U" for i
    using that U len avl_at_inorder [OF inv, of "of_nat i"] by (simp add: unat_of_nat_small)
  then have "map (\<lambda>i. avl_at t (of_nat i)) [L..<U] = map Some (map ((!) ?xs) [L..<U])" by simp
  also have "map ((!) ?xs) [L..<U] = drop L (take U ?xs)" using U by (rule map_nth_upt_slice)
  finally have m: "map (\<lambda>i. avl_at t (of_nat i)) [L..<U] = map Some (drop L (take U ?xs))" .
  have "avl_sum t l r = Some (sum_list (drop L (take U ?xs)))"
    using avl_sum_filter [OF s lr] sorted_filter_interval [OF s(2) lr] by (simp add: L_def U_def)
  then show ?thesis using m b by blast
qed

theorem sum_equals_index_scan_witness:
  "\<exists>vs. map (\<lambda>i. avl_at (build [5, 3, 8, 1, 4, 7, 9 :: int]) (of_nat i))
          [nat (avl_lower_bound (build [5, 3, 8, 1, 4, 7, 9 :: int]) 3) ..<
           nat (avl_upper_bound (build [5, 3, 8, 1, 4, 7, 9 :: int]) 8)] = map Some vs \<and>
        avl_sum (build [5, 3, 8, 1, 4, 7, 9 :: int]) 3 8 = Some (sum_list vs)"
proof -
  have inv: "tree_inv (build [5, 3, 8, 1, 4, 7, 9 :: int])"
    unfolding build_def using run_ops_inv_mset [OF tree_inv_AVLTree] by blast
  have "avl_size (build [5, 3, 8, 1, 4, 7, 9 :: int]) = 7"
    by (simp add: build_def AVLTree_def avl_insert_eq avl_size_def)
  then show ?thesis using sum_equals_index_scan [OF inv, of 3 8] by simp
qed

subsection \<open>How the mutators move the counting queries\<close>

lemma bounds_mset:
  "tree_inv t \<Longrightarrow>
   avl_lower_bound t x = int (size {#y \<in># mset (inorder (root t)). y < x#}) \<and>
   avl_upper_bound t x = int (size {#y \<in># mset (inorder (root t)). y \<le> x#})"
  by (simp flip: mset_filter add: avl_lower_bound_inorder avl_upper_bound_inorder)

lemma size_filter_mset_remove:
  "int (size (filter_mset P (M - {#y#}))) = int (size (filter_mset P M)) - (if P y \<and> y \<in># M then 1 else 0)"
  by (cases "y \<in># M") (auto dest!: multi_member_split)

lemma size_filter_mset_add:
  "int (size (filter_mset P (add_mset y M))) = int (size (filter_mset P M)) + (if P y then 1 else 0)"
  by simp

text \<open>
  C34. On a tree satisfying the invariant, \<open>insert(y)\<close> raises \<open>lower_bound(x)\<close> by one
  exactly when \<open>y < x\<close> and \<open>upper_bound(x)\<close> by one exactly when \<open>y \<le> x\<close>;
  \<open>erase(y)\<close> lowers them by one under the same conditions when \<open>y\<close> is stored, and
  leaves them unchanged otherwise.
\<close>

theorem mutators_shift_bounds:
  "tree_inv t \<Longrightarrow>
   avl_lower_bound (avl_insert y t) x = avl_lower_bound t x + (if y < x then 1 else 0) \<and>
   avl_upper_bound (avl_insert y t) x = avl_upper_bound t x + (if y \<le> x then 1 else 0) \<and>
   avl_lower_bound (avl_erase y t) x =
     avl_lower_bound t x - (if y < x \<and> y \<in> set (inorder (root t)) then 1 else 0) \<and>
   avl_upper_bound (avl_erase y t) x =
     avl_upper_bound t x - (if y \<le> x \<and> y \<in> set (inorder (root t)) then 1 else 0)"
proof -
  assume inv: "tree_inv t"
  let ?M = "mset (inorder (root t))"
  have i: "mset (inorder (root (avl_insert y t))) = add_mset y ?M"
    and e: "mset (inorder (root (avl_erase y t))) = ?M - {#y#}"
    using mset_exec_op [OF inv, of "Insert y"] mset_exec_op [OF inv, of "Erase y"] by simp_all
  have ii: "tree_inv (avl_insert y t)" and ie: "tree_inv (avl_erase y t)"
    using tree_inv_exec_op [OF inv, of "Insert y"] tree_inv_exec_op [OF inv, of "Erase y"] by simp_all
  note b = bounds_mset [OF inv, of x] and bi = bounds_mset [OF ii, of x] and be = bounds_mset [OF ie, of x]
  have "avl_lower_bound (avl_insert y t) x = avl_lower_bound t x + (if y < x then 1 else 0)"
    unfolding conjunct1 [OF bi] conjunct1 [OF b] i by (rule size_filter_mset_add)
  moreover have "avl_upper_bound (avl_insert y t) x = avl_upper_bound t x + (if y \<le> x then 1 else 0)"
    unfolding conjunct2 [OF bi] conjunct2 [OF b] i by (rule size_filter_mset_add)
  moreover have "avl_lower_bound (avl_erase y t) x =
      avl_lower_bound t x - (if y < x \<and> y \<in> set (inorder (root t)) then 1 else 0)"
    unfolding conjunct1 [OF be] conjunct1 [OF b] e set_mset_mset [symmetric]
    by (rule size_filter_mset_remove)
  moreover have "avl_upper_bound (avl_erase y t) x =
      avl_upper_bound t x - (if y \<le> x \<and> y \<in> set (inorder (root t)) then 1 else 0)"
    unfolding conjunct2 [OF be] conjunct2 [OF b] e set_mset_mset [symmetric]
    by (rule size_filter_mset_remove)
  ultimately show ?thesis by blast
qed

theorem mutators_shift_bounds_witness:
  "avl_lower_bound (avl_insert 2 (avl_insert (1::int) (avl_insert 3 (avl_insert 5 AVLTree)))) 4 = 3 \<and>
   avl_upper_bound (avl_erase 3 (avl_insert (1::int) (avl_insert 3 (avl_insert 5 AVLTree)))) 4 = 1"
proof -
  have "avl_lower_bound (avl_insert (1::int) (avl_insert 3 (avl_insert 5 AVLTree))) 4 = 2"
       "avl_upper_bound (avl_insert (1::int) (avl_insert 3 (avl_insert 5 AVLTree))) 4 = 2"
    using avl_lower_bound_inorder [OF tree_inv_small_example] avl_upper_bound_inorder [OF tree_inv_small_example]
    by (simp_all add: inorder_small_example)
  then show ?thesis
    using mutators_shift_bounds [OF tree_inv_small_example, of 2 4] mutators_shift_bounds [OF tree_inv_small_example, of 3 4]
    by (simp add: inorder_small_example)
qed

subsection \<open>Queries against the multiset contract\<close>

lemma run_ops_sorted_mset:
  "tree_inv (run_ops ops AVLTree) \<and> sorted (inorder (root (run_ops ops AVLTree))) \<and>
   aggr_inv (root (run_ops ops AVLTree)) \<and>
   mset (inorder (root (run_ops ops AVLTree))) = abs_run ops {#}"
  using run_ops_inv_mset [OF tree_inv_AVLTree, of ops]
  by (simp add: tree_inv_def bst_def AVLTree_def)

lemma length_filter_le_split:
  "length (filter (\<lambda>y. y \<le> x) xs) = length (filter (\<lambda>y. y < x) xs) + count (mset xs) x"
  for x :: "'a::linorder"
  by (induction xs) auto

text \<open>
  C39. After any run of \<open>insert\<close>, \<open>erase\<close> and \<open>clear\<close> from an empty tree,
  \<open>upper_bound(x) - lower_bound(x)\<close> is the multiplicity of \<open>x\<close> in the multiset the run
  denotes, and \<open>lower_bound(x)\<close> is the number of its elements below \<open>x\<close>.
\<close>

theorem run_count_query:
  "avl_upper_bound (run_ops ops AVLTree) x - avl_lower_bound (run_ops ops AVLTree) x =
     int (count (abs_run ops {#}) x) \<and>
   avl_lower_bound (run_ops ops AVLTree) x = int (size {#y \<in># abs_run ops {#}. y < x#})"
proof -
  let ?xs = "inorder (root (run_ops ops AVLTree))"
  have r: "aggr_inv (root (run_ops ops AVLTree))" "sorted ?xs" "mset ?xs = abs_run ops {#}"
    using run_ops_sorted_mset [of ops] by simp_all
  have u: "avl_upper_bound (run_ops ops AVLTree) x = int (length (filter (\<lambda>y. y \<le> x) ?xs))"
    using upper_walk_correct [OF r(1,2), of x 0] by (simp add: avl_upper_bound_def)
  have l: "avl_lower_bound (run_ops ops AVLTree) x = int (length (filter (\<lambda>y. y < x) ?xs))"
    using lower_walk_correct [OF r(1,2), of x 0] by (simp add: avl_lower_bound_def)
  have "size {#y \<in># abs_run ops {#}. y < x#} = length (filter (\<lambda>y. y < x) ?xs)"
    by (simp flip: r(3) mset_filter)
  then show ?thesis using u l r(3) length_filter_le_split [of x ?xs] by simp
qed

text \<open>
  C40. After any run from an empty tree, \<open>sum(l, r)\<close> for \<open>l \<le> r\<close> is the sum of the
  run's multiset restricted to \<open>[l, r]\<close>, and \<open>find_min\<close> and \<open>find_max\<close> are its least and
  greatest element (a null dereference, \<open>None\<close>, when the multiset is empty).
\<close>

theorem run_sum_min_max_refinement:
  "l \<le> r \<Longrightarrow>
   avl_sum (run_ops ops AVLTree) l r = Some (sum_mset {#y \<in># abs_run ops {#}. l \<le> y \<and> y \<le> r#}) \<and>
   avl_find_min (run_ops ops AVLTree) =
     (if abs_run ops {#} = {#} then None else Some (Min_mset (abs_run ops {#}))) \<and>
   avl_find_max (run_ops ops AVLTree) =
     (if abs_run ops {#} = {#} then None else Some (Max_mset (abs_run ops {#})))"
  for l r :: "'a::{linorder,comm_monoid_add}"
proof -
  assume lr: "l \<le> r"
  let ?t = "root (run_ops ops AVLTree)"
  have r: "aggr_inv ?t" "sorted (inorder ?t)" "mset (inorder ?t) = abs_run ops {#}"
    using run_ops_sorted_mset [of ops] by simp_all
  have e: "abs_run ops {#} = {#} \<longleftrightarrow> ?t = Null"
    using r(3) by (cases ?t) (auto simp flip: r(3))
  have "sum_mset {#y \<in># abs_run ops {#}. l \<le> y \<and> y \<le> r#} = sum_list (filter (in_range l r) (inorder ?t))"
    by (simp flip: r(3) mset_filter add: sum_mset_sum_list)
  moreover have "?t \<noteq> Null \<Longrightarrow> hd (inorder ?t) = Min_mset (abs_run ops {#})"
    using r(2) by (simp flip: r(3) add: sorted_hd_is_Min)
  moreover have "?t \<noteq> Null \<Longrightarrow> last (inorder ?t) = Max_mset (abs_run ops {#})"
    using r(2) by (simp flip: r(3) add: sorted_last_is_Max)
  ultimately show ?thesis using avl_sum_filter [OF r(1,2) lr] e
    by (simp add: avl_find_min_def avl_find_max_def min_walk_correct max_walk_correct)
qed

theorem run_sum_min_max_refinement_witness:
  "avl_sum (run_ops [Insert 3, Insert 1, Insert 4, Erase 3, Insert 2] AVLTree) 1 (2::int) = Some 3 \<and>
   avl_find_min (run_ops [Insert 3, Insert 1, Insert 4, Erase 3, Insert (2::int)] AVLTree) = Some 1 \<and>
   avl_find_max (run_ops [Insert 3, Insert 1, Insert 4, Erase 3, Insert (2::int)] AVLTree) = Some 4"
  using run_sum_min_max_refinement [of "1::int" 2 "[Insert 3, Insert 1, Insert 4, Erase 3, Insert 2]"]
  by simp

end
